theory Spec2Isabelle
  imports Complex_Main "HOL-Library.AList"
begin

section \<open>Grouping unsortable objects: \<open>generic_groupby\<close>\<close>

text \<open>
  The source keeps a list \<open>list_out\<close> of labels (\<open>None\<close> while an item is unlabelled) and a
  counter \<open>label_num\<close>. The outer loop visits every index \<open>i1\<close>; for an unlabelled \<open>i1\<close> it
  assigns \<open>label_num\<close> and scans the later indices \<open>i2\<close>. The inner loop is \<open>scan_later\<close>,
  the outer loop is \<open>label_all\<close>; both thread the pair \<open>(list_out, label_num)\<close>.
  All index reads are in range: \<open>i1\<close> and \<open>i2\<close> are drawn from \<open>[0..<length list_in]\<close>.
\<close>

type_synonym groupby_state = "int option list \<times> int"

fun scan_later :: "('a \<Rightarrow> 'a \<Rightarrow> bool) \<Rightarrow> 'a list \<Rightarrow> nat \<Rightarrow> nat list \<Rightarrow> groupby_state \<Rightarrow> groupby_state" where
  "scan_later cmp list_in i1 [] st = st"
| "scan_later cmp list_in i1 (i2 # rest) (list_out, label_num) =
     (if cmp (list_in ! i1) (list_in ! i2) then
        (if list_out ! i2 = None
         then scan_later cmp list_in i1 rest (list_out[i2 := list_out ! i1], label_num)
         else scan_later cmp list_in i1 rest (list_out[i1 := list_out ! i2], label_num - 1))
      else scan_later cmp list_in i1 rest (list_out, label_num))"

fun label_all :: "('a \<Rightarrow> 'a \<Rightarrow> bool) \<Rightarrow> 'a list \<Rightarrow> nat list \<Rightarrow> groupby_state \<Rightarrow> groupby_state" where
  "label_all cmp list_in [] st = st"
| "label_all cmp list_in (i1 # rest) (list_out, label_num) =
     (if list_out ! i1 \<noteq> None then label_all cmp list_in rest (list_out, label_num)
      else (case scan_later cmp list_in i1 [Suc i1 ..< length list_out]
                   (list_out[i1 := Some label_num], label_num) of
              (list_out', label_num') \<Rightarrow> label_all cmp list_in rest (list_out', label_num' + 1)))"

definition generic_groupby :: "'a list \<Rightarrow> ('a \<Rightarrow> 'a \<Rightarrow> bool) \<Rightarrow> int option list" where
  "generic_groupby list_in cmp =
     fst (label_all cmp list_in [0 ..< length list_in] (replicate (length list_in) None, 0))"

text \<open>The items of \<open>list_in\<close> that \<open>cmp\<close> (the source's \<open>comp\<close>) relates directly, as a relation on indices.\<close>

definition connects :: "('a \<Rightarrow> 'a \<Rightarrow> bool) \<Rightarrow> 'a list \<Rightarrow> (nat \<times> nat) set" where
  "connects cmp list_in =
     {(i, j). i < length list_in \<and> j < length list_in \<and> cmp (list_in ! i) (list_in ! j)}"

text \<open>
  The loop invariant of \<open>label_all\<close> before index \<open>k\<close>, for an equivalence \<open>cmp\<close>: exactly
  the items equivalent to one of the first \<open>k\<close> items are labelled, two labelled items share
  a label exactly when they are equivalent, and every label is below the counter.
\<close>

definition labelled_upto :: "('a \<Rightarrow> 'a \<Rightarrow> bool) \<Rightarrow> 'a list \<Rightarrow> nat \<Rightarrow> groupby_state \<Rightarrow> bool" where
  "labelled_upto cmp xs k st =
     (case st of (out, lnum) \<Rightarrow>
        length out = length xs \<and>
        (\<forall>j<length xs. (out ! j \<noteq> None) = (\<exists>i<k. cmp (xs ! i) (xs ! j))) \<and>
        (\<forall>i<length xs. \<forall>j<length xs. out ! i \<noteq> None \<longrightarrow> out ! j \<noteq> None \<longrightarrow>
            (out ! i = out ! j) = cmp (xs ! i) (xs ! j)) \<and>
        (\<forall>j<length xs. \<forall>l. out ! j = Some l \<longrightarrow> l < lnum))"

section \<open>Python values, dictionaries and exceptions\<close>

text \<open>
  Every exception the modelled code can raise is a value. \<open>Unsupported\<close> is not a Python
  exception: it is the model's answer where an attribute holds a value of a type that the
  data model excludes (a \<open>to_jimage\<close> that is not a 3-tuple of integers, a \<open>hop_label\<close> that is
  neither an \<open>int\<close> nor a \<open>str\<close>, a cost attribute that is not a number, a reference to an edge
  that does not exist).
\<close>

datatype py_error =
    IndexError | KeyError | TypeError | AttributeError | ValueError | RuntimeError
  | NotImplementedError | UnboundLocalError | Warning | Unsupported

type_synonym jimage = "int \<times> int \<times> int"

datatype site = PeriodicSite (species: string) (frac_coords: "real \<times> real \<times> real")

datatype hop = MigrationPath (isite: site) (esite: site) (hop_length: real)

datatype label = IntLabel int | StrLabel string

text \<open>
  The values stored on graph edges: Python \<open>int\<close>, \<open>str\<close>, \<open>float\<close> and \<open>list\<close>, numpy scalars
  (\<open>np.generic\<close>) and arrays (\<open>np.ndarray\<close>), a 3-tuple of integers, a \<open>MigrationPath\<close>.
  Floats are modelled by real numbers.
\<close>

datatype pyval =
    PInt int
  | PStr string
  | PFloat real
  | NpScalar real
  | PList "pyval list"
  | NdArray "real list"
  | Image jimage
  | HopV hop

text \<open>
  A \<open>dict\<close> keeps its keys in insertion order: an association list. \<open>d[k] = v\<close> replaces the
  value of an existing key in place and appends a new key (\<open>AList.update\<close>); \<open>d.update(data)\<close>
  stores the items of \<open>data\<close> one after the other.
\<close>

type_synonym pydict = "(string \<times> pyval) list"


definition dict_set :: "pydict \<Rightarrow> string \<Rightarrow> pyval \<Rightarrow> pydict" where
  "dict_set d k v = AList.update k v d"

definition dict_update :: "pydict \<Rightarrow> pydict \<Rightarrow> pydict" where
  "dict_update d data = foldl (\<lambda>acc (k, v). dict_set acc k v) d data"

text \<open>Typed reads of the three attributes the code reads by name.\<close>

definition to_jimage_of :: "pydict \<Rightarrow> py_error + jimage" where
  "to_jimage_of d =
     (case map_of d ''to_jimage'' of
        None \<Rightarrow> Inl KeyError
      | Some (Image j) \<Rightarrow> Inr j
      | Some _ \<Rightarrow> Inl Unsupported)"

definition hop_label_of :: "pydict \<Rightarrow> py_error + label" where
  "hop_label_of d =
     (case map_of d ''hop_label'' of
        None \<Rightarrow> Inl KeyError
      | Some (PInt i) \<Rightarrow> Inr (IntLabel i)
      | Some (PStr s) \<Rightarrow> Inr (StrLabel s)
      | Some _ \<Rightarrow> Inl Unsupported)"

text \<open>\<open>d["hop"].isite\<close>: a value that is not a \<open>MigrationPath\<close> has no attribute \<open>isite\<close>.\<close>

definition hop_of :: "pydict \<Rightarrow> py_error + hop" where
  "hop_of d =
     (case map_of d ''hop'' of
        None \<Rightarrow> Inl KeyError
      | Some (HopV h) \<Rightarrow> Inr h
      | Some _ \<Rightarrow> Inl AttributeError)"

text \<open>
  The multigraph: its edges \<open>(u, v, key, d)\<close> in iteration order, \<open>d\<close> the attribute
  dictionary of the edge.
\<close>

type_synonym edge = "nat \<times> nat \<times> nat \<times> pydict"
type_synonym graph = "edge list"

definition edge_dict :: "edge \<Rightarrow> pydict" where
  "edge_dict e = snd (snd (snd e))"

fun image_sub :: "jimage \<Rightarrow> jimage \<Rightarrow> jimage" where
  "image_sub (a, b, c) (a', b', c') = (a - a', b - b', c - c')"

fun image_neg :: "jimage \<Rightarrow> jimage" where
  "image_neg (a, b, c) = (- a, - b, - c)"

text \<open>The number held by a value, if it is one.\<close>

fun as_number :: "pyval \<Rightarrow> real option" where
  "as_number (PInt i) = Some (real_of_int i)"
| "as_number (PFloat x) = Some x"
| "as_number (NpScalar x) = Some x"
| "as_number _ = None"



section \<open>Path reconstruction in \<open>get_intercollating_path\<close>\<close>

text \<open>
  For every node the method works on \<open>GG\<close>, a deep copy of the object's graph from which
  the edges with \<open>tmp_d["cost"] > max_val\<close> are removed: a first loop collects their
  \<open>(u, v, key)\<close> in \<open>cut_edges\<close>, a second loop calls \<open>GG.remove_edge\<close> for each. The periodic
  search runs on \<open>GG\<close>, and the edges of the path it returns are looked up in \<open>GG\<close>.
\<close>

definition edge_key :: "edge \<Rightarrow> nat \<times> nat \<times> nat" where
  "edge_key e = (fst e, fst (snd e), fst (snd (snd e)))"

definition cost_above :: "real \<Rightarrow> pydict \<Rightarrow> py_error + bool" where
  "cost_above max_val tmp_d =
     (case map_of tmp_d ''cost'' of
        None \<Rightarrow> Inl KeyError
      | Some c \<Rightarrow> (case as_number c of None \<Rightarrow> Inl Unsupported | Some r \<Rightarrow> Inr (r > max_val)))"

fun collect_cut_edges :: "real \<Rightarrow> graph \<Rightarrow> (nat \<times> nat \<times> nat) list
                            \<Rightarrow> py_error + (nat \<times> nat \<times> nat) list" where
  "collect_cut_edges max_val [] cut_edges = Inr cut_edges"
| "collect_cut_edges max_val (e # rest) cut_edges =
     (case cost_above max_val (edge_dict e) of
        Inl err \<Rightarrow> Inl err
      | Inr over \<Rightarrow>
          collect_cut_edges max_val rest (if over then cut_edges @ [edge_key e] else cut_edges))"

fun remove_edges :: "(nat \<times> nat \<times> nat) list \<Rightarrow> graph \<Rightarrow> graph" where
  "remove_edges [] GG = GG"
| "remove_edges (k # cut_edges) GG = remove_edges cut_edges (filter (\<lambda>e. edge_key e \<noteq> k) GG)"

definition trim_graph :: "real \<Rightarrow> graph \<Rightarrow> py_error + graph" where
  "trim_graph max_val G =
     (case collect_cut_edges max_val G [] of
        Inl err \<Rightarrow> Inl err
      | Inr cut_edges \<Rightarrow> Inr (remove_edges cut_edges G))"

text \<open>
  \<open>GG.get_edge_data(i1_, i2_, default={}).items()\<close>: the keys and attribute dictionaries of
  the edges stored from \<open>i1_\<close> to \<open>i2_\<close>, none when there is no such edge.
\<close>

definition get_edge_data :: "graph \<Rightarrow> nat \<Rightarrow> nat \<Rightarrow> (nat \<times> pydict) list" where
  "get_edge_data GG i1 i2 = map (\<lambda>e. (fst (snd (snd e)), edge_dict e))
                              (filter (\<lambda>e. fst e = i1 \<and> fst (snd e) = i2) GG)"

text \<open>
  The loop over \<open>all_edge_data\<close>: an edge whose \<open>to_jimage\<close> is the image difference or its
  negation is appended to \<open>path_hops\<close> and counted in \<open>found_\<close>.
\<close>

fun scan_edge_data :: "jimage \<Rightarrow> (nat \<times> pydict) list \<Rightarrow> pydict list \<times> nat
                         \<Rightarrow> py_error + (pydict list \<times> nat)" where
  "scan_edge_data image_diff [] st = Inr st"
| "scan_edge_data image_diff ((k, tmp_d) # rest) (path_hops, found) =
     (case to_jimage_of tmp_d of
        Inl e \<Rightarrow> Inl e
      | Inr j \<Rightarrow>
          if j = image_diff \<or> j = image_neg image_diff
          then scan_edge_data image_diff rest (path_hops @ [tmp_d], found + 1)
          else scan_edge_data image_diff rest (path_hops, found))"

text \<open>One iteration of the loop over consecutive states of the path.\<close>

definition match_step :: "graph \<Rightarrow> (nat \<times> jimage) \<Rightarrow> (nat \<times> jimage) \<Rightarrow> pydict list
                            \<Rightarrow> py_error + pydict list" where
  "match_step GG s1 s2 path_hops =
     (case (s1, s2) of ((idx1, jimage1), (idx2, jimage2)) \<Rightarrow>
        let i1 = min idx1 idx2; i2 = max idx1 idx2;
            all_edge_data = get_edge_data GG i1 i2;
            image_diff = image_sub jimage2 jimage1
        in (case scan_edge_data image_diff all_edge_data (path_hops, 0) of
              Inl e \<Rightarrow> Inl e
            | Inr (path_hops', found) \<Rightarrow>
                if found \<noteq> 1 then Inl RuntimeError else Inr path_hops'))"

fun match_steps :: "graph \<Rightarrow> ((nat \<times> jimage) \<times> (nat \<times> jimage)) list \<Rightarrow> pydict list
                      \<Rightarrow> py_error + pydict list" where
  "match_steps GG [] path_hops = Inr path_hops"
| "match_steps GG ((s1, s2) # rest) path_hops =
     (case match_step GG s1 s2 path_hops of
        Inl e \<Rightarrow> Inl e
      | Inr path_hops' \<Rightarrow> match_steps GG rest path_hops')"

text \<open>\<open>zip(path[:-1], path[1:])\<close>, starting from an empty \<open>path_hops\<close>.\<close>

definition reconstruct_path_hops :: "graph \<Rightarrow> (nat \<times> jimage) list \<Rightarrow> py_error + pydict list" where
  "reconstruct_path_hops GG path = match_steps GG (zip (butlast path) (tl path)) []"

text \<open>
  The reconstruction as the method runs it for one node: on the trimmed copy of the
  object's graph \<open>G\<close>. The path is the one the periodic search selected; the search is not
  part of these definitions, and the properties hold for every path.
\<close>

definition path_hops_of :: "real \<Rightarrow> graph \<Rightarrow> (nat \<times> jimage) list \<Rightarrow> py_error + pydict list" where
  "path_hops_of max_val G path =
     (case trim_graph max_val G of
        Inl err \<Rightarrow> Inl err
      | Inr GG \<Rightarrow> reconstruct_path_hops GG path)"

text \<open>
  What the specification counts, written out without the code's helpers: the edges of a
  graph stored between the sorted index pair whose \<open>to_jimage\<close> is the image of the second
  state minus the image of the first, or the image of the first minus the image of the
  second.
\<close>

fun plus_or_minus :: "jimage \<Rightarrow> jimage \<Rightarrow> jimage \<Rightarrow> bool" where
  "plus_or_minus (a, b, c) (a1, b1, c1) (a2, b2, c2) =
     ((a = a2 - a1 \<and> b = b2 - b1 \<and> c = c2 - c1) \<or>
      (a = a1 - a2 \<and> b = b1 - b2 \<and> c = c1 - c2))"

definition sorted_pair :: "nat \<Rightarrow> nat \<Rightarrow> nat \<times> nat" where
  "sorted_pair i j = (if i \<le> j then (i, j) else (j, i))"

definition is_match :: "(nat \<times> jimage) \<Rightarrow> (nat \<times> jimage) \<Rightarrow> edge \<Rightarrow> bool" where
  "is_match s1 s2 e =
     ((fst e, fst (snd e)) = sorted_pair (fst s1) (fst s2) \<and>
      (case to_jimage_of (edge_dict e) of
         Inr t \<Rightarrow> plus_or_minus t (snd s1) (snd s2)
       | Inl err \<Rightarrow> False))"

definition matching_edges :: "graph \<Rightarrow> (nat \<times> jimage) \<Rightarrow> (nat \<times> jimage) \<Rightarrow> pydict list" where
  "matching_edges GG s1 s2 = map edge_dict (filter (is_match s1 s2) GG)"

text \<open>
  The graph without the edges whose cost exceeds \<open>max_val\<close>, and the conditions under which
  the trimming raises nothing: every edge has a number as its cost, and no two edges share
  end points and key.
\<close>

definition within_cost :: "real \<Rightarrow> edge \<Rightarrow> bool" where
  "within_cost max_val e =
     (case map_of (edge_dict e) ''cost'' of
        None \<Rightarrow> True
      | Some c \<Rightarrow> (case as_number c of None \<Rightarrow> True | Some r \<Rightarrow> r \<le> max_val))"

definition kept_edges :: "real \<Rightarrow> graph \<Rightarrow> graph" where
  "kept_edges max_val G = filter (within_cost max_val) G"

definition has_number_cost :: "edge \<Rightarrow> bool" where
  "has_number_cost e =
     (case map_of (edge_dict e) ''cost'' of
        None \<Rightarrow> False
      | Some c \<Rightarrow> (case as_number c of None \<Rightarrow> False | Some r \<Rightarrow> True))"

definition jmatch :: "jimage \<Rightarrow> pydict \<Rightarrow> bool" where
  "jmatch image_diff d = (to_jimage_of d = Inr image_diff \<or> to_jimage_of d = Inr (image_neg image_diff))"

definition has_jimage :: "edge \<Rightarrow> bool" where
  "has_jimage e = (case to_jimage_of (edge_dict e) of Inr j \<Rightarrow> True | Inl err \<Rightarrow> False)"

text \<open>
  The diagnostic at the head of \<open>get_intercollating_path\<close>: both sides of the comparison
  are \<open>len(self.unique_hops)\<close>. The result is the list of records passed to \<open>logger.error\<close>
  (the two counts of the message and the name).
\<close>

datatype log_record = LogError nat nat "string option"

definition hop_count_diagnostic :: "'h list \<Rightarrow> string option \<Rightarrow> log_record list" where
  "hop_count_diagnostic unique_hops name =
     (if length unique_hops \<noteq> length unique_hops
      then [LogError (length unique_hops) (length unique_hops) name]
      else [])"

section \<open>Reordering a path: \<open>modify_path\<close>\<close>

text \<open>A hop of a path is a triple \<open>(u, v, info)\<close> of two node indices and the edge dictionary.\<close>

type_synonym hop_info = "nat \<times> nat \<times> pydict"

definition hop_i :: "hop_info \<Rightarrow> nat" where "hop_i h = fst h"
definition hop_e :: "hop_info \<Rightarrow> nat" where "hop_e h = fst (snd h)"
definition hop_d :: "hop_info \<Rightarrow> pydict" where "hop_d h = snd (snd h)"

text \<open>
  The first statement of the loop body: \<open>one_path[0]\<close> raises on an empty path, the read of
  \<open>to_jimage\<close> on a dictionary without it; a first hop that leaves the cell reverses the path.
\<close>

definition normalise :: "hop_info list \<Rightarrow> py_error + hop_info list" where
  "normalise one_path =
     (case one_path of
        [] \<Rightarrow> Inl IndexError
      | h0 # rest \<Rightarrow>
          (case to_jimage_of (hop_d h0) of
             Inl e \<Rightarrow> Inl e
           | Inr j \<Rightarrow> Inr (if j \<noteq> (0, 0, 0) then rev one_path else one_path)))"

text \<open>
  The general case walks along the path from \<open>previous_point\<close>. A hop that starts there is
  appended as it is; a hop that ends there is appended turned around, its \<open>to_jimage\<close>
  negated in a copy of its dictionary. Both tests are independent \<open>if\<close>s.
  \<open>m_path[-1]\<close> raises when nothing has been appended yet.
\<close>

fun walk :: "nat \<Rightarrow> hop_info list \<Rightarrow> hop_info list \<Rightarrow> py_error + hop_info list" where
  "walk previous_point [] m_path = Inr m_path"
| "walk previous_point (one_hop_info # rest) m_path =
     (let m1 = (if hop_i one_hop_info = previous_point then m_path @ [one_hop_info] else m_path)
      in if hop_e one_hop_info = previous_point
         then (case to_jimage_of (hop_d one_hop_info) of
                 Inl e \<Rightarrow> Inl e
               | Inr j \<Rightarrow>
                   let new_info = dict_set (hop_d one_hop_info) ''to_jimage'' (Image (image_neg j));
                       m2 = m1 @ [(hop_e one_hop_info, hop_i one_hop_info, new_info)]
                   in walk (hop_e (last m2)) rest m2)
         else (case m1 of
                 [] \<Rightarrow> Inl IndexError
               | _ \<Rightarrow> walk (hop_e (last m1)) rest m1))"

text \<open>
  \<open>list(set(one_path[0][0:2]) & set(one_path[-1][0:2]))\<close>: the end points of the first hop
  that are also end points of the last one. Python does not fix the order in which a set
  is listed, so the element taken by \<open>[0]\<close> is chosen by a parameter \<open>first_of\<close> of the model.
\<close>

definition common_points :: "hop_info list \<Rightarrow> nat list" where
  "common_points one_path =
     filter (\<lambda>x. x \<in> set [hop_i (last one_path), hop_e (last one_path)])
            (remdups [hop_i (hd one_path), hop_e (hd one_path)])"

definition modify_one :: "(nat list \<Rightarrow> nat) \<Rightarrow> hop_info list \<Rightarrow> py_error + hop_info list" where
  "modify_one first_of one_path0 =
     (case normalise one_path0 of
        Inl e \<Rightarrow> Inl e
      | Inr one_path \<Rightarrow>
          (case one_path of
             a # b # rest \<Rightarrow>
               if set [hop_i a, hop_e a] = set [hop_i b, hop_e b]
               then (if hop_i a = hop_i b
                     then Inr [(hop_e a, hop_i a, hop_d a), b]
                     else Inr [])
               else (case common_points one_path of
                       [] \<Rightarrow> Inl IndexError
                     | cs \<Rightarrow> walk (first_of cs) one_path [])
           | _ \<Rightarrow> Inl IndexError))"

text \<open>
  The generator: the paths yielded so far, and the exception that ended the iteration, if
  one did.
\<close>

fun modify_path :: "(nat list \<Rightarrow> nat) \<Rightarrow> hop_info list list
                      \<Rightarrow> hop_info list list \<times> py_error option" where
  "modify_path first_of [] = ([], None)"
| "modify_path first_of (one_path # paths) =
     (case modify_one first_of one_path of
        Inl e \<Rightarrow> ([], Some e)
      | Inr m_path \<Rightarrow>
          (case modify_path first_of paths of (ys, err) \<Rightarrow> (m_path # ys, err)))"

text \<open>The property of a reordered path, and the conditions on an input path.\<close>

definition crosses :: "hop_info \<Rightarrow> bool" where
  "crosses h = (case to_jimage_of (hop_d h) of Inr j \<Rightarrow> j \<noteq> (0, 0, 0) | Inl e \<Rightarrow> False)"

definition stays :: "hop_info \<Rightarrow> bool" where
  "stays h = (to_jimage_of (hop_d h) = Inr (0, 0, 0))"

definition last_hop_crosses_only :: "hop_info list \<Rightarrow> bool" where
  "last_hop_crosses_only m = (m \<noteq> [] \<and> crosses (last m) \<and> list_all stays (butlast m))"

definition one_crossing_at_end :: "hop_info list \<Rightarrow> bool" where
  "one_crossing_at_end p =
     (p \<noteq> [] \<and> ((crosses (hd p) \<and> list_all stays (tl p)) \<or>
                (crosses (last p) \<and> list_all stays (butlast p))))"

fun chained :: "nat \<Rightarrow> hop_info list \<Rightarrow> bool" where
  "chained previous_point [] = True"
| "chained previous_point (h # rest) =
     (hop_i h \<noteq> hop_e h \<and>
      ((hop_i h = previous_point \<and> chained (hop_e h) rest) \<or>
       (hop_e h = previous_point \<and> chained (hop_i h) rest)))"

definition reorderable :: "(nat list \<Rightarrow> nat) \<Rightarrow> hop_info list \<Rightarrow> bool" where
  "reorderable first_of p =
     (one_crossing_at_end p \<and>
      (case normalise p of
         Inr (a # b # rest) \<Rightarrow>
           if set [hop_i a, hop_e a] = set [hop_i b, hop_e b]
           then rest = [] \<and> hop_i a = hop_i b
           else common_points (a # b # rest) \<noteq> [] \<and>
                chained (first_of (common_points (a # b # rest))) (a # b # rest)
       | _ \<Rightarrow> False))"

section \<open>Broadcasting data to similar edges: \<open>add_data_to_similar_edges\<close>\<close>

text \<open>
  The reference path \<open>m_path\<close>: its initial site and the equivalence test of its symmetry
  context, \<open>m_path.symm_structure.spacegroup.are_symmetrically_equivalent\<close>, applied to two
  one-site lists.
\<close>

record m_path_ref =
  ref_isite :: site
  are_symmetrically_equivalent :: "site \<Rightarrow> site \<Rightarrow> bool"

text \<open>
  \<open>x[::-1]\<close>: defined on sequences; a number and a \<open>MigrationPath\<close> are not subscriptable, a
  numpy scalar rejects the index.
\<close>

fun py_reversed :: "pyval \<Rightarrow> py_error + pyval" where
  "py_reversed (PList xs) = Inr (PList (rev xs))"
| "py_reversed (PStr s) = Inr (PStr (rev s))"
| "py_reversed (NdArray a) = Inr (NdArray (rev a))"
| "py_reversed (Image (a, b, c)) = Inr (Image (c, b, a))"
| "py_reversed (NpScalar x) = Inl IndexError"
| "py_reversed (PInt i) = Inl TypeError"
| "py_reversed (PFloat x) = Inl TypeError"
| "py_reversed (HopV h) = Inl TypeError"

text \<open>
  The loop over \<open>data.keys()\<close> on an edge whose orientation disagrees with the reference:
  an array or numpy scalar raises \<open>Warning\<close>, a value that is not a list is skipped, and for
  a list the edge's value under that key is replaced by its reversal. The edge dictionary
  keeps what was written before an exception.
\<close>

fun flip_data :: "pydict \<Rightarrow> string list \<Rightarrow> pydict \<Rightarrow> pydict \<times> py_error option" where
  "flip_data data [] d = (d, None)"
| "flip_data data (k # ks) d =
     (case map_of data k of
        None \<Rightarrow> (d, Some KeyError)
      | Some (NdArray a) \<Rightarrow> (d, Some Warning)
      | Some (NpScalar x) \<Rightarrow> (d, Some Warning)
      | Some (PList xs) \<Rightarrow>
          (case map_of d k of
             None \<Rightarrow> (d, Some KeyError)
           | Some w \<Rightarrow>
               (case py_reversed w of
                  Inl e \<Rightarrow> (d, Some e)
                | Inr r \<Rightarrow> flip_data data ks (dict_set d k r)))
      | Some _ \<Rightarrow> flip_data data ks d)"

definition cons_edge :: "edge \<Rightarrow> graph \<times> py_error option \<Rightarrow> graph \<times> py_error option" where
  "cons_edge e r = (e # fst r, snd r)"

text \<open>
  The loop over the edges. The graph is mutated in place, so the result is the graph as
  it stands when the loop ends or an exception leaves it, together with that exception.
\<close>

fun add_data_to_similar_edges :: "label \<Rightarrow> pydict \<Rightarrow> m_path_ref option \<Rightarrow> graph
                                    \<Rightarrow> graph \<times> py_error option" where
  "add_data_to_similar_edges target_label data m_path [] = ([], None)"
| "add_data_to_similar_edges target_label data m_path ((u, v, key, d) # rest) =
     (case hop_label_of d of
        Inl e \<Rightarrow> ((u, v, key, d) # rest, Some e)
      | Inr l \<Rightarrow>
          if l \<noteq> target_label
          then cons_edge (u, v, key, d) (add_data_to_similar_edges target_label data m_path rest)
          else
            (let d1 = dict_update d data in
             case m_path of
               None \<Rightarrow> cons_edge (u, v, key, d1)
                         (add_data_to_similar_edges target_label data m_path rest)
             | Some mp \<Rightarrow>
                 (case hop_of d1 of
                    Inl e \<Rightarrow> ((u, v, key, d1) # rest, Some e)
                  | Inr h \<Rightarrow>
                      if \<not> are_symmetrically_equivalent mp (ref_isite mp) (isite h)
                      then (case flip_data data (map fst data) d1 of
                              (d2, Some e) \<Rightarrow> ((u, v, key, d2) # rest, Some e)
                            | (d2, None) \<Rightarrow>
                                cons_edge (u, v, key, d2)
                                  (add_data_to_similar_edges target_label data m_path rest))
                      else cons_edge (u, v, key, d1)
                             (add_data_to_similar_edges target_label data m_path rest))))"

text \<open>
  An edge is flipped when a reference path is given and the initial site of the edge's
  hop, read after the update, is not symmetrically equivalent to the reference's.
\<close>

definition disagrees :: "m_path_ref option \<Rightarrow> pydict \<Rightarrow> bool" where
  "disagrees m_path d =
     (case m_path of
        None \<Rightarrow> False
      | Some mp \<Rightarrow>
          (case hop_of d of
             Inl e \<Rightarrow> False
           | Inr h \<Rightarrow> \<not> are_symmetrically_equivalent mp (ref_isite mp) (isite h)))"

definition has_hop :: "pydict \<Rightarrow> bool" where
  "has_hop d = (case hop_of d of Inr h \<Rightarrow> True | Inl err \<Rightarrow> False)"

definition is_array :: "pyval option \<Rightarrow> bool" where
  "is_array v = (case v of Some (NdArray a) \<Rightarrow> True | Some (NpScalar x) \<Rightarrow> True | _ \<Rightarrow> False)"

text \<open>
  What a call may do to one edge \<open>e\<close>, giving \<open>e'\<close>: the end points and the key stay; an
  edge with another label stays as it is; attributes whose key is not in \<open>data\<close> stay; and
  every attribute is unchanged, or is the value given in \<open>data\<close>, or is the reversal of a
  list given in \<open>data\<close> on an edge that disagrees with the reference.
\<close>

definition broadcast_frame :: "label \<Rightarrow> pydict \<Rightarrow> m_path_ref option \<Rightarrow> edge \<Rightarrow> edge \<Rightarrow> bool" where
  "broadcast_frame target_label data m_path e e' =
     (fst e' = fst e \<and> fst (snd e') = fst (snd e) \<and> fst (snd (snd e')) = fst (snd (snd e)) \<and>
      (hop_label_of (edge_dict e) \<noteq> Inr target_label \<longrightarrow> e' = e) \<and>
      (\<forall>k. k \<notin> fst ` set data \<longrightarrow> map_of (edge_dict e') k = map_of (edge_dict e) k) \<and>
      (\<forall>k. map_of (edge_dict e') k = map_of (edge_dict e) k \<or>
           map_of (edge_dict e') k = map_of data k \<or>
           (disagrees m_path (dict_update (edge_dict e) data) \<and>
            (\<exists>xs. map_of data k = Some (PList xs) \<and>
                  map_of (edge_dict e') k = Some (PList (rev xs))))))"

section \<open>Costs: \<open>_populate_unique_hops_dict\<close> and \<open>assign_cost_to_graph\<close>\<close>

text \<open>
  \<open>unique_hops\<close> maps a label to the attribute dictionary of an edge of the graph, the
  same object and not a copy: an entry holds the position of that edge in the edge list.
\<close>

record full_path_mapper =
  s_graph :: graph
  unique_hops :: "(label \<times> nat) list"

text \<open>
  The first loop of \<open>_populate_unique_hops_dict\<close> runs over the edges in reverse and stores
  \<open>iindex\<close>, \<open>eindex\<close> and \<open>hop_distance\<close> on each. \<open>decorate_rev\<close> takes the edges still to
  be visited in iteration order and visits the last one first.
\<close>

definition decorate_edge :: "edge \<Rightarrow> py_error + edge" where
  "decorate_edge e =
     (case e of (u, v, key, d) \<Rightarrow>
        let d1 = dict_set d ''iindex'' (PInt (int u));
            d2 = dict_set d1 ''eindex'' (PInt (int v))
        in (case hop_of d2 of
              Inl err \<Rightarrow> Inl err
            | Inr h \<Rightarrow> Inr (u, v, key, dict_set d2 ''hop_distance'' (PFloat (hop_length h)))))"

fun decorate_all :: "edge list \<Rightarrow> py_error + edge list" where
  "decorate_all [] = Inr []"
| "decorate_all (e # rest) =
     (case decorate_edge e of
        Inl err \<Rightarrow> Inl err
      | Inr e' \<Rightarrow> (case decorate_all rest of Inl err \<Rightarrow> Inl err | Inr rest' \<Rightarrow> Inr (e' # rest')))"

text \<open>
  The dictionary comprehension \<open>{d["hop_label"]: d for u, v, d in ihop_data}\<close>, over the
  edges in reverse: a later edge of the reversed list replaces the value of its label.
\<close>

fun collect_unique :: "(nat \<times> edge) list \<Rightarrow> (label \<times> nat) list \<Rightarrow> py_error + (label \<times> nat) list" where
  "collect_unique [] acc = Inr acc"
| "collect_unique ((i, e) # rest) acc =
     (case hop_label_of (edge_dict e) of
        Inl err \<Rightarrow> Inl err
      | Inr l \<Rightarrow> collect_unique rest (AList.update l i acc))"

definition populate_unique_hops_dict :: "graph \<Rightarrow> py_error + full_path_mapper" where
  "populate_unique_hops_dict g =
     (case decorate_all (rev g) of
        Inl err \<Rightarrow> Inl err
      | Inr rg \<Rightarrow>
          (case collect_unique (zip (rev [0 ..< length g]) rg) [] of
             Inl err \<Rightarrow> Inl err
           | Inr uh \<Rightarrow> Inr \<lparr> s_graph = rev rg, unique_hops = uh \<rparr>))"





text \<open>
  A consistent object: every edge has a label, every entry of \<open>unique_hops\<close> refers to an
  edge of the graph that carries the entry's label, and no label occurs twice.
\<close>

definition has_label :: "edge \<Rightarrow> bool" where
  "has_label e = (case hop_label_of (edge_dict e) of Inr l \<Rightarrow> True | Inl err \<Rightarrow> False)"

definition consistent :: "full_path_mapper \<Rightarrow> bool" where
  "consistent self =
     (list_all has_label (s_graph self) \<and>
      distinct (map fst (unique_hops self)) \<and>
      list_all (\<lambda>(l, a). a < length (s_graph self) \<and>
                         hop_label_of (edge_dict (s_graph self ! a)) = Inr l) (unique_hops self))"




text \<open>
  The effect of one broadcast of a cost on one edge, and what the loop needs of an entry
  of \<open>unique_hops\<close>: it refers to an edge of the graph with the entry's label on which the
  cost can be computed.
\<close>

definition with_cost :: "label \<Rightarrow> pyval \<Rightarrow> edge \<Rightarrow> edge" where
  "with_cost l c e =
     (if hop_label_of (edge_dict e) = Inr l
      then (fst e, fst (snd e), fst (snd (snd e)), dict_set (edge_dict e) ''cost'' c)
      else e)"


section \<open>The integration radius of \<open>_get_avg_chg_at_max\<close>\<close>

text \<open>
  \<open>rr\<close> is assigned only when \<open>radius\<close> is \<open>None\<close>; it is a local name of the function, so
  reading it unassigned raises \<open>UnboundLocalError\<close>. With \<open>radius\<close> left out and no tube
  radius stored (\<open>_tube_radius\<close> is \<open>None\<close> after construction) the comparison \<open>None > 0\<close>
  raises \<open>TypeError\<close>. The averaging that follows uses the charge density services and
  is a parameter \<open>average\<close> of the model.
\<close>

definition integration_radius :: "real option \<Rightarrow> real option \<Rightarrow> py_error + real" where
  "integration_radius radius tube_radius =
     (case radius of
        None \<Rightarrow>
          (case tube_radius of
             None \<Rightarrow> Inl TypeError
           | Some rr \<Rightarrow> if \<not> rr > 0 then Inl ValueError else Inr rr)
      | Some r \<Rightarrow> Inl UnboundLocalError)"

definition get_avg_chg_at_max :: "(real \<Rightarrow> py_error + 'r) \<Rightarrow> real option \<Rightarrow> real option \<Rightarrow> py_error + 'r" where
  "get_avg_chg_at_max average radius tube_radius =
     (case integration_radius radius tube_radius of
        Inl e \<Rightarrow> Inl e
      | Inr rr \<Rightarrow> average rr)"

section \<open>The constructor of \<open>FullPathMapper\<close>\<close>

text \<open>
  The statements of \<open>__init__\<close> up to the test of \<open>vac_mode\<close> call the periodic table, the
  symmetry analysis and the structure library. They are parameters of the model and may
  raise; \<open>build\<close> stands for the statements after the test.
\<close>

record ('st, 'sp, 'an, 'sy) services =
  get_el_sp :: "string \<Rightarrow> py_error + 'sp"
  SpacegroupAnalyzer :: "'st \<Rightarrow> real \<Rightarrow> py_error + 'an"
  get_symmetrized_structure :: "'an \<Rightarrow> py_error + 'sy"
  get_only_sites :: "'st \<Rightarrow> 'sp \<Rightarrow> py_error + 'st"

definition FullPathMapper_init ::
  "('st, 'sp, 'an, 'sy) services \<Rightarrow> ('st \<Rightarrow> 'sy \<Rightarrow> 'sp \<Rightarrow> real \<Rightarrow> py_error + 'obj)
     \<Rightarrow> 'st \<Rightarrow> string \<Rightarrow> real \<Rightarrow> real \<Rightarrow> bool \<Rightarrow> py_error + 'obj" where
  "FullPathMapper_init ext build structure migrating_specie max_path_length symprec vac_mode =
     (case get_el_sp ext migrating_specie of
        Inl e \<Rightarrow> Inl e
      | Inr sp \<Rightarrow>
          (case SpacegroupAnalyzer ext structure symprec of
             Inl e \<Rightarrow> Inl e
           | Inr a \<Rightarrow>
               (case get_symmetrized_structure ext a of
                  Inl e \<Rightarrow> Inl e
                | Inr symm_structure \<Rightarrow>
                    (case get_only_sites ext structure sp of
                       Inl e \<Rightarrow> Inl e
                     | Inr only_sites \<Rightarrow>
                         if vac_mode then Inl NotImplementedError
                         else build only_sites symm_structure sp max_path_length))))"


section \<open>Properties of \<open>generic_groupby\<close>\<close>

lemma scan_later_fresh:
  assumes "length out = n" "k < n" "out ! k = Some l"
    and "\<forall>i\<in>set js. i < n \<and> i \<noteq> k \<and> (cmp (xs ! k) (xs ! i) \<longrightarrow> out ! i = None)"
    and "distinct js"
  shows "\<exists>out'. scan_later cmp xs k js (out, lnum) = (out', lnum) \<and> length out' = n \<and>
           (\<forall>j<n. out' ! j = (if j \<in> set js \<and> cmp (xs ! k) (xs ! j) then Some l else out ! j))"
  using assms
proof (induction js arbitrary: out)
  case Nil
  then show ?case by simp
next
  case (Cons i js)
  show ?case
  proof (cases "cmp (xs ! k) (xs ! i)")
    case False
    have "\<exists>out'. scan_later cmp xs k js (out, lnum) = (out', lnum) \<and> length out' = n \<and>
           (\<forall>j<n. out' ! j = (if j \<in> set js \<and> cmp (xs ! k) (xs ! j) then Some l else out ! j))"
      using Cons.prems by (intro Cons.IH) auto
    then show ?thesis using False by auto
  next
    case True
    then have none: "out ! i = None" and i: "i < n" "i \<noteq> k" and notin: "i \<notin> set js"
      using Cons.prems by auto
    let ?o = "out[i := Some l]"
    have "\<exists>out'. scan_later cmp xs k js (?o, lnum) = (out', lnum) \<and> length out' = n \<and>
           (\<forall>j<n. out' ! j = (if j \<in> set js \<and> cmp (xs ! k) (xs ! j) then Some l else ?o ! j))"
      using Cons.prems i notin by (intro Cons.IH) (auto simp: nth_list_update)
    then obtain out' where o: "scan_later cmp xs k js (?o, lnum) = (out', lnum)" "length out' = n"
      "\<forall>j<n. out' ! j = (if j \<in> set js \<and> cmp (xs ! k) (xs ! j) then Some l else ?o ! j)"
      by blast
    have "scan_later cmp xs k (i # js) (out, lnum) = (out', lnum)"
      using True none o(1) Cons.prems(3) by simp
    moreover have "\<forall>j<n. out' ! j = (if j \<in> set (i # js) \<and> cmp (xs ! k) (xs ! j) then Some l else out ! j)"
      using o(3) True Cons.prems(1) i by (auto simp: nth_list_update)
    ultimately show ?thesis using o(2) by blast
  qed
qed

lemma labelled_upto_skip:
  assumes eq: "equivp cmp" and inv: "labelled_upto cmp xs k (out, lnum)"
    and k: "k < length xs" and lab: "out ! k \<noteq> None"
  shows "labelled_upto cmp xs (Suc k) (out, lnum)"
proof -
  from inv k lab obtain i0 where i0: "i0 < k" "cmp (xs ! i0) (xs ! k)"
    by (auto simp: labelled_upto_def)
  have "(\<exists>i<Suc k. cmp (xs ! i) (xs ! j)) = (\<exists>i<k. cmp (xs ! i) (xs ! j))" for j
  proof
    assume "\<exists>i<Suc k. cmp (xs ! i) (xs ! j)"
    then obtain i where i: "i < Suc k" "cmp (xs ! i) (xs ! j)" by blast
    show "\<exists>i<k. cmp (xs ! i) (xs ! j)"
    proof (cases "i = k")
      case True
      then have "cmp (xs ! i0) (xs ! j)" using i0(2) i(2) eq by (metis equivp_transp)
      then show ?thesis using i0(1) by blast
    next
      case False
      then show ?thesis using i by (metis less_SucE)
    qed
  next
    assume "\<exists>i<k. cmp (xs ! i) (xs ! j)"
    then show "\<exists>i<Suc k. cmp (xs ! i) (xs ! j)" using less_Suc_eq by auto
  qed
  then show ?thesis using inv by (simp add: labelled_upto_def)
qed

lemma labelled_upto_fresh:
  assumes eq: "equivp cmp" and inv: "labelled_upto cmp xs k (out, lnum)"
    and k: "k < length xs" and unl: "out ! k = None"
  shows "\<exists>out'. scan_later cmp xs k [Suc k ..< length out] (out[k := Some lnum], lnum) = (out', lnum)
           \<and> labelled_upto cmp xs (Suc k) (out', lnum + 1)"
proof -
  let ?n = "length xs"
  have len: "length out = ?n" using inv by (simp add: labelled_upto_def)
  have lab: "(out ! j \<noteq> None) = (\<exists>i<k. cmp (xs ! i) (xs ! j))" if "j < ?n" for j
    using inv that by (simp add: labelled_upto_def)
  have same: "(out ! i = out ! j) = cmp (xs ! i) (xs ! j)"
    if "i < ?n" "j < ?n" "out ! i \<noteq> None" "out ! j \<noteq> None" for i j
    using inv that by (simp add: labelled_upto_def)
  have bound: "l < lnum" if "j < ?n" "out ! j = Some l" for j l
    using inv that by (simp add: labelled_upto_def)
  have sym: "cmp a b \<Longrightarrow> cmp b a" for a b using eq by (metis equivp_symp)
  have trans: "cmp a b \<Longrightarrow> cmp b c \<Longrightarrow> cmp a c" for a b c using eq by (metis equivp_transp)
  have refl: "cmp a a" for a using eq by (metis equivp_reflp)
  have unrelated: "\<not> cmp (xs ! i) (xs ! k)" if "i < k" for i
    using lab[OF k] unl that by auto
  have fresh: "out ! j = None" if j: "j < ?n" and kj: "cmp (xs ! k) (xs ! j)" for j
  proof (rule ccontr)
    assume "out ! j \<noteq> None"
    then obtain i where "i < k" "cmp (xs ! i) (xs ! j)" using lab[OF j] by blast
    then have "cmp (xs ! i) (xs ! k)" using kj sym trans by blast
    then show False using unrelated \<open>i < k\<close> by blast
  qed
  have later: "k \<le> j" if "j < ?n" "cmp (xs ! k) (xs ! j)" for j
    using unrelated[of j] that sym by (meson not_le)
  let ?o = "out[k := Some lnum]"
  have "\<exists>out'. scan_later cmp xs k [Suc k ..< ?n] (?o, lnum) = (out', lnum) \<and> length out' = ?n \<and>
           (\<forall>j<?n. out' ! j = (if j \<in> set [Suc k ..< ?n] \<and> cmp (xs ! k) (xs ! j) then Some lnum else ?o ! j))"
    using len k fresh by (intro scan_later_fresh) auto
  then obtain out' where o: "scan_later cmp xs k [Suc k ..< ?n] (?o, lnum) = (out', lnum)"
    "length out' = ?n"
    "\<forall>j<?n. out' ! j = (if j \<in> set [Suc k ..< ?n] \<and> cmp (xs ! k) (xs ! j) then Some lnum else ?o ! j)"
    by blast
  have new: "out' ! j = (if cmp (xs ! k) (xs ! j) then Some lnum else out ! j)" if "j < ?n" for j
  proof (cases "j = k")
    case True
    then show ?thesis using o(3) that len refl by simp
  next
    case False
    then show ?thesis using o(3) that later[OF that] by (auto simp: nth_list_update)
  qed
  have b: "(out' ! j \<noteq> None) = (\<exists>i<Suc k. cmp (xs ! i) (xs ! j))" if "j < ?n" for j
    using new[OF that] lab[OF that] by (auto simp: less_Suc_eq)
  have c: "(out' ! i = out' ! j) = cmp (xs ! i) (xs ! j)"
    if "i < ?n" "j < ?n" "out' ! i \<noteq> None" "out' ! j \<noteq> None" for i j
  proof (cases "cmp (xs ! k) (xs ! i)")
    case ki: True
    show ?thesis
    proof (cases "cmp (xs ! k) (xs ! j)")
      case True
      then show ?thesis using ki new that sym trans by (metis (full_types))
    next
      case False
      then have "out' ! j = out ! j" "out ! j \<noteq> None" using new that by auto
      then obtain l where "out ! j = Some l" by blast
      then have "l < lnum" using bound that by blast
      then have "out' ! i \<noteq> out' ! j" using new[OF that(1)] ki \<open>out' ! j = out ! j\<close> \<open>out ! j = Some l\<close> by simp
      moreover have "\<not> cmp (xs ! i) (xs ! j)" using False ki trans by blast
      ultimately show ?thesis by simp
    qed
  next
    case nki: False
    then have i': "out' ! i = out ! i" "out ! i \<noteq> None" using new that by auto
    show ?thesis
    proof (cases "cmp (xs ! k) (xs ! j)")
      case True
      obtain l where "out ! i = Some l" using i' by blast
      then have "l < lnum" using bound that by blast
      then have "out' ! i \<noteq> out' ! j" using new[OF that(2)] True i' \<open>out ! i = Some l\<close> by simp
      moreover have "\<not> cmp (xs ! i) (xs ! j)" using True nki sym trans by blast
      ultimately show ?thesis by simp
    next
      case False
      then have "out' ! j = out ! j" "out ! j \<noteq> None" using new that by auto
      then show ?thesis using i' same that by simp
    qed
  qed
  have d: "l < lnum + 1" if "j < ?n" "out' ! j = Some l" for j l
  proof (cases "cmp (xs ! k) (xs ! j)")
    case True
    then show ?thesis using new[OF that(1)] that(2) by simp
  next
    case False
    then have "out ! j = Some l" using new[OF that(1)] that(2) by simp
    then have "l < lnum" using bound[OF that(1)] by blast
    then show ?thesis by simp
  qed
  have "labelled_upto cmp xs (Suc k) (out', lnum + 1)"
    unfolding labelled_upto_def using o(2) b c d by simp
  then show ?thesis using o(1) len by auto
qed

lemma label_all_upt:
  assumes eq: "equivp cmp" and inv: "labelled_upto cmp xs k st" and k: "k \<le> length xs"
  shows "labelled_upto cmp xs (length xs) (label_all cmp xs [k ..< length xs] st)"
  using inv k
proof (induction "length xs - k" arbitrary: k st)
  case 0
  then show ?case by simp
next
  case (Suc d)
  then have k: "k < length xs" by simp
  obtain out lnum where st: "st = (out, lnum)" by (cases st)
  have upt: "[k ..< length xs] = k # [Suc k ..< length xs]" using k by (simp add: upt_conv_Cons)
  show ?case
  proof (cases "out ! k = None")
    case False
    have "labelled_upto cmp xs (Suc k) (out, lnum)"
      using labelled_upto_skip[OF eq _ k False] Suc.prems st by simp
    then have "labelled_upto cmp xs (length xs) (label_all cmp xs [Suc k ..< length xs] (out, lnum))"
      using Suc.hyps k by (intro Suc.hyps(1)) auto
    then show ?thesis using False st upt by simp
  next
    case True
    obtain out' where o: "scan_later cmp xs k [Suc k ..< length out] (out[k := Some lnum], lnum) = (out', lnum)"
      "labelled_upto cmp xs (Suc k) (out', lnum + 1)"
      using labelled_upto_fresh[OF eq _ k True] Suc.prems st by blast
    have "labelled_upto cmp xs (length xs) (label_all cmp xs [Suc k ..< length xs] (out', lnum + 1))"
      using Suc.hyps k o(2) by (intro Suc.hyps(1)) auto
    then show ?thesis using True st upt o(1) by simp
  qed
qed

lemma labelled_upto_init: "labelled_upto cmp xs 0 (replicate (length xs) None, 0)"
  by (simp add: labelled_upto_def)

lemma connects_rtrancl:
  assumes eq: "equivp cmp" and "i < length xs" "j < length xs"
  shows "((i, j) \<in> (connects cmp xs)\<^sup>*) = cmp (xs ! i) (xs ! j)"
proof
  assume "(i, j) \<in> (connects cmp xs)\<^sup>*"
  then show "cmp (xs ! i) (xs ! j)"
  proof (induction rule: rtrancl_induct)
    case base
    then show ?case using eq by (metis equivp_reflp)
  next
    case (step y z)
    then show ?case using eq by (metis (mono_tags, lifting) connects_def equivp_transp mem_Collect_eq case_prodD)
  qed
next
  assume "cmp (xs ! i) (xs ! j)"
  then have "(i, j) \<in> connects cmp xs" using assms by (simp add: connects_def)
  then show "(i, j) \<in> (connects cmp xs)\<^sup>*" by blast
qed

text \<open>
  Claim C1. For every input list and every predicate that is an equivalence relation,
  \<open>generic_groupby\<close> returns a list of the same length, every entry of which is an integer
  label, and two items carry the same label if and only if the predicate relates them,
  which for an equivalence is the same as being connected by a chain of related items.
\<close>

theorem generic_groupby_equivalence:
  assumes "equivp cmp"
  shows "length (generic_groupby xs cmp) = length xs \<and>
         (\<forall>i<length xs. \<exists>l. generic_groupby xs cmp ! i = Some l) \<and>
         (\<forall>i<length xs. \<forall>j<length xs.
            (generic_groupby xs cmp ! i = generic_groupby xs cmp ! j) = cmp (xs ! i) (xs ! j) \<and>
            cmp (xs ! i) (xs ! j) = ((i, j) \<in> (connects cmp xs)\<^sup>*))"
proof -
  obtain out lnum where r: "label_all cmp xs [0 ..< length xs] (replicate (length xs) None, 0) = (out, lnum)"
    by (cases "label_all cmp xs [0 ..< length xs] (replicate (length xs) None, 0)")
  have "labelled_upto cmp xs (length xs) (out, lnum)"
    using label_all_upt[OF assms labelled_upto_init, of xs] r by simp
  then have len: "length out = length xs"
    and lab: "\<forall>j<length xs. (out ! j \<noteq> None) = (\<exists>i<length xs. cmp (xs ! i) (xs ! j))"
    and same: "\<forall>i<length xs. \<forall>j<length xs. out ! i \<noteq> None \<longrightarrow> out ! j \<noteq> None \<longrightarrow>
            (out ! i = out ! j) = cmp (xs ! i) (xs ! j)"
    by (simp_all add: labelled_upto_def)
  have g: "generic_groupby xs cmp = out" using r by (simp add: generic_groupby_def)
  have all: "out ! j \<noteq> None" if "j < length xs" for j
    using lab that assms by (metis equivp_reflp)
  show ?thesis
    unfolding g using len all same connects_rtrancl[OF assms] by auto
qed

theorem generic_groupby_equivalence_witness:
  "equivp ((=) :: nat \<Rightarrow> nat \<Rightarrow> bool) \<and>
   length (generic_groupby [1, 2, 1 :: nat] (=)) = 3 \<and>
   generic_groupby [1, 2, 1 :: nat] (=) ! 0 = generic_groupby [1, 2, 1 :: nat] (=) ! 2 \<and>
   generic_groupby [1, 2, 1 :: nat] (=) ! 0 \<noteq> generic_groupby [1, 2, 1 :: nat] (=) ! 1"
proof -
  have e: "equivp ((=) :: nat \<Rightarrow> nat \<Rightarrow> bool)" by (rule identity_equivp)
  from generic_groupby_equivalence[OF e, of "[1, 2, 1]"] have
    len: "length (generic_groupby [1, 2, 1 :: nat] (=)) = 3"
    and lab: "\<forall>i<3. \<forall>j<3. (generic_groupby [1, 2, 1 :: nat] (=) ! i = generic_groupby [1, 2, 1 :: nat] (=) ! j)
                 = ([1, 2, 1 :: nat] ! i = [1, 2, 1 :: nat] ! j)"
    by simp_all
  have "generic_groupby [1, 2, 1 :: nat] (=) ! 0 = generic_groupby [1, 2, 1 :: nat] (=) ! 2"
    using lab by (simp del: One_nat_def)
  moreover have "generic_groupby [1, 2, 1 :: nat] (=) ! 0 \<noteq> generic_groupby [1, 2, 1 :: nat] (=) ! 1"
    using lab by (simp del: One_nat_def)
  ultimately show ?thesis using e len by simp
qed

section \<open>Properties of the path reconstruction\<close>

lemma scan_edge_data_filter:
  assumes "\<forall>kd\<in>set eds. \<exists>j. to_jimage_of (snd kd) = Inr j"
  shows "scan_edge_data image_diff eds (path_hops, found) =
           Inr (path_hops @ filter (jmatch image_diff) (map snd eds),
                found + length (filter (jmatch image_diff) (map snd eds)))"
  using assms
proof (induction eds arbitrary: path_hops found)
  case Nil
  then show ?case by simp
next
  case (Cons kd eds)
  obtain k d where kd: "kd = (k, d)" by (cases kd)
  obtain j where j: "to_jimage_of d = Inr j" using Cons.prems kd by auto
  have rest: "\<forall>kd\<in>set eds. \<exists>j. to_jimage_of (snd kd) = Inr j" using Cons.prems by simp
  show ?case
    using Cons.IH[OF rest] kd j by (auto simp: jmatch_def)
qed

lemma jmatch_plus_or_minus:
  "jmatch (image_sub j2 j1) d =
     (case to_jimage_of d of Inr t \<Rightarrow> plus_or_minus t j1 j2 | Inl err \<Rightarrow> False)"
proof (cases "to_jimage_of d")
  case (Inl err)
  then show ?thesis by (simp add: jmatch_def)
next
  case (Inr t)
  obtain a b c where t: "t = (a, b, c)" by (cases t)
  obtain a1 b1 c1 where j1: "j1 = (a1, b1, c1)" by (cases j1)
  obtain a2 b2 c2 where j2: "j2 = (a2, b2, c2)" by (cases j2)
  show ?thesis using Inr t j1 j2 by (auto simp: jmatch_def)
qed

lemma sorted_pair_min_max:
  "((u, v) = sorted_pair i j) = (u = min i j \<and> v = max i j)"
  by (auto simp: sorted_pair_def min_def max_def)

lemma get_edge_data_matching:
  "filter (jmatch (image_sub (snd s2) (snd s1)))
      (map snd (get_edge_data GG (min (fst s1) (fst s2)) (max (fst s1) (fst s2))))
   = matching_edges GG s1 s2"
proof -
  have "(fst e = min (fst s1) (fst s2) \<and> fst (snd e) = max (fst s1) (fst s2) \<and>
         jmatch (image_sub (snd s2) (snd s1)) (edge_dict e)) = is_match s1 s2 e" for e
    by (simp add: is_match_def sorted_pair_min_max jmatch_plus_or_minus)
  then show ?thesis
    by (simp add: get_edge_data_def matching_edges_def filter_map o_def conj_ac)
qed

lemma get_edge_data_has_jimage:
  assumes "list_all has_jimage GG"
  shows "\<forall>kd\<in>set (get_edge_data GG i1 i2). \<exists>j. to_jimage_of (snd kd) = Inr j"
proof
  fix kd assume "kd \<in> set (get_edge_data GG i1 i2)"
  then obtain e where e: "e \<in> set GG" "snd kd = edge_dict e"
    by (auto simp: get_edge_data_def)
  then have "has_jimage e" using assms by (simp add: list_all_iff)
  then show "\<exists>j. to_jimage_of (snd kd) = Inr j"
    using e(2) by (cases "to_jimage_of (edge_dict e)") (auto simp add: has_jimage_def)
qed

lemma match_step_eq:
  assumes "list_all has_jimage GG"
  shows "match_step GG s1 s2 path_hops =
           (if length (matching_edges GG s1 s2) \<noteq> 1 then Inl RuntimeError
            else Inr (path_hops @ matching_edges GG s1 s2))"
proof -
  obtain idx1 jimage1 idx2 jimage2 where s: "s1 = (idx1, jimage1)" "s2 = (idx2, jimage2)"
    by (cases s1, cases s2) auto
  have a: "\<forall>kd\<in>set (get_edge_data GG (min idx1 idx2) (max idx1 idx2)). \<exists>j. to_jimage_of (snd kd) = Inr j"
    by (rule get_edge_data_has_jimage[OF assms])
  have m: "filter (jmatch (image_sub jimage2 jimage1))
             (map snd (get_edge_data GG (min idx1 idx2) (max idx1 idx2))) = matching_edges GG s1 s2"
    using get_edge_data_matching[of s2 s1 GG] s by simp
  have "scan_edge_data (image_sub jimage2 jimage1) (get_edge_data GG (min idx1 idx2) (max idx1 idx2)) (path_hops, 0)
        = Inr (path_hops @ matching_edges GG s1 s2, 0 + length (matching_edges GG s1 s2))"
    unfolding m[symmetric] by (rule scan_edge_data_filter[OF a])
  then show ?thesis using s by (simp add: match_step_def Let_def)
qed

lemma match_steps_eq:
  assumes "list_all has_jimage GG"
  shows "match_steps GG pairs path_hops =
           (if \<exists>p\<in>set pairs. length (matching_edges GG (fst p) (snd p)) \<noteq> 1 then Inl RuntimeError
            else Inr (path_hops @ concat (map (\<lambda>p. matching_edges GG (fst p) (snd p)) pairs)))"
proof (induction pairs arbitrary: path_hops)
  case Nil
  then show ?case by simp
next
  case (Cons p pairs)
  obtain s1 s2 where p: "p = (s1, s2)" by (cases p)
  show ?case using Cons.IH p by (simp add: match_step_eq[OF assms])
qed

lemma collect_cut_edges_eq:
  assumes "list_all has_number_cost G"
  shows "collect_cut_edges max_val G acc =
           Inr (acc @ map edge_key (filter (\<lambda>e. \<not> within_cost max_val e) G))"
  using assms
proof (induction G arbitrary: acc)
  case Nil
  then show ?case by simp
next
  case (Cons e G)
  from Cons.prems obtain c r where c: "map_of (edge_dict e) ''cost'' = Some c" "as_number c = Some r"
    by (auto simp: has_number_cost_def split: option.splits)
  have above: "cost_above max_val (edge_dict e) = Inr (r > max_val)"
    using c by (simp add: cost_above_def)
  have within: "within_cost max_val e = (r \<le> max_val)"
    using c by (simp add: within_cost_def)
  have rest: "list_all has_number_cost G" using Cons.prems by simp
  show ?case
    using Cons.IH[OF rest] above within by (simp add: not_le)
qed

lemma remove_edges_filter:
  "remove_edges ks GG = filter (\<lambda>e. edge_key e \<notin> set ks) GG"
proof (induction ks arbitrary: GG)
  case Nil
  then show ?case by simp
next
  case (Cons k ks)
  have "filter (\<lambda>e. edge_key e \<notin> set ks) (filter (\<lambda>e. edge_key e \<noteq> k) GG)
        = filter (\<lambda>e. edge_key e \<notin> set (k # ks)) GG"
    by (induction GG) auto
  then show ?case using Cons.IH by simp
qed

lemma trim_graph_kept:
  assumes "list_all has_number_cost G" and "distinct (map edge_key G)"
  shows "trim_graph max_val G = Inr (kept_edges max_val G)"
proof -
  let ?cut = "map edge_key (filter (\<lambda>e. \<not> within_cost max_val e) G)"
  have inj: "inj_on edge_key (set G)" using assms(2) by (simp add: distinct_map)
  have "(edge_key e \<notin> set ?cut) = within_cost max_val e" if e: "e \<in> set G" for e
  proof
    assume "edge_key e \<notin> set ?cut"
    then show "within_cost max_val e" using e by force
  next
    assume w: "within_cost max_val e"
    show "edge_key e \<notin> set ?cut"
    proof
      assume "edge_key e \<in> set ?cut"
      then obtain e' where e': "e' \<in> set G" "\<not> within_cost max_val e'" "edge_key e' = edge_key e"
        by auto
      then have "e' = e" using inj e by (auto dest: inj_onD)
      then show False using e'(2) w by simp
    qed
  qed
  then have "filter (\<lambda>e. edge_key e \<notin> set ?cut) G = filter (within_cost max_val) G"
    by (intro filter_cong) auto
  then show ?thesis
    using collect_cut_edges_eq[OF assms(1), of max_val "[]"]
    by (simp add: trim_graph_def remove_edges_filter kept_edges_def)
qed

lemma kept_edges_has_jimage:
  "list_all has_jimage G \<Longrightarrow> list_all has_jimage (kept_edges max_val G)"
  by (simp add: kept_edges_def list_all_iff)

text \<open>
  Claim C3, as stated, counts the matching edges in the graph. The code counts them in
  the trimmed copy. The graph below has two edges between nodes 0 and 1 whose \<open>to_jimage\<close>
  is plus or minus \<open>(1,0,0)\<close>, one of them with a cost above \<open>max_val = 2\<close>: for the step from
  \<open>(0, (0,0,0))\<close> to \<open>(1, (1,0,0))\<close> the number of matching edges in the graph is two, not one,
  yet no \<open>RuntimeError\<close> is raised and the hops of the path are returned.
\<close>

theorem path_hops_of_counterexample:
  "length (matching_edges
     [(0, 1, 0, [(''to_jimage'', Image (1, 0, 0)), (''cost'', PFloat 1)]),
      (0, 1, 1, [(''to_jimage'', Image (- 1, 0, 0)), (''cost'', PFloat 5)]),
      (0, 1, 2, [(''to_jimage'', Image (0, 0, 0)), (''cost'', PFloat 1)])]
     (0, (0, 0, 0)) (1, (1, 0, 0))) = 2 \<and>
   path_hops_of 2
     [(0, 1, 0, [(''to_jimage'', Image (1, 0, 0)), (''cost'', PFloat 1)]),
      (0, 1, 1, [(''to_jimage'', Image (- 1, 0, 0)), (''cost'', PFloat 5)]),
      (0, 1, 2, [(''to_jimage'', Image (0, 0, 0)), (''cost'', PFloat 1)])]
     [(0, (0, 0, 0)), (1, (1, 0, 0)), (0, (1, 0, 0))]
   = Inr [[(''to_jimage'', Image (1, 0, 0)), (''cost'', PFloat 1)],
          [(''to_jimage'', Image (0, 0, 0)), (''cost'', PFloat 1)]]"
  by (simp add: matching_edges_def is_match_def sorted_pair_def to_jimage_of_def edge_dict_def
      path_hops_of_def trim_graph_def cost_above_def edge_key_def reconstruct_path_hops_def
      match_step_def get_edge_data_def)

text \<open>
  Claim C3, amended: the edges are counted in the copy of the graph from which the edges
  with a cost above \<open>max_val\<close> have been removed. On a graph whose edges all carry a number
  as cost and a \<open>to_jimage\<close>, and no two of which share end points and key, the trimming
  yields the graph without the edges whose cost exceeds \<open>max_val\<close>; one step of the
  reconstruction raises \<open>RuntimeError\<close> if and only if the number of edges of that copy
  between the sorted index pair whose \<open>to_jimage\<close> is plus or minus the image difference
  is not exactly one, and when there is exactly one its dictionary is appended to the
  hop list. For the whole path: \<open>RuntimeError\<close> is raised if and only if some consecutive
  pair of states has not exactly one matching edge in the copy, and otherwise the result
  is the list of the matching edges' dictionaries in path order.
\<close>

theorem path_hops_of_pruned:
  assumes "list_all has_number_cost G" and "distinct (map edge_key G)" and "list_all has_jimage G"
  shows "trim_graph max_val G = Inr (kept_edges max_val G) \<and>
         ((match_step (kept_edges max_val G) s1 s2 path_hops = Inl RuntimeError) =
            (length (matching_edges (kept_edges max_val G) s1 s2) \<noteq> 1)) \<and>
         (\<forall>d. matching_edges (kept_edges max_val G) s1 s2 = [d] \<longrightarrow>
              match_step (kept_edges max_val G) s1 s2 path_hops = Inr (path_hops @ [d])) \<and>
         ((path_hops_of max_val G path = Inl RuntimeError) =
            (\<exists>p\<in>set (zip (butlast path) (tl path)).
               length (matching_edges (kept_edges max_val G) (fst p) (snd p)) \<noteq> 1)) \<and>
         ((\<forall>p\<in>set (zip (butlast path) (tl path)).
              length (matching_edges (kept_edges max_val G) (fst p) (snd p)) = 1) \<longrightarrow>
            path_hops_of max_val G path =
              Inr (concat (map (\<lambda>p. matching_edges (kept_edges max_val G) (fst p) (snd p))
                            (zip (butlast path) (tl path)))))"
proof -
  note t = trim_graph_kept[OF assms(1,2), of max_val]
  note j = kept_edges_has_jimage[OF assms(3), of max_val]
  have p: "path_hops_of max_val G path = reconstruct_path_hops (kept_edges max_val G) path"
    by (simp add: path_hops_of_def t)
  show ?thesis
    unfolding p
    by (simp add: t match_step_eq[OF j] match_steps_eq[OF j] reconstruct_path_hops_def)
qed

theorem path_hops_of_pruned_witness:
  "list_all has_number_cost
     [(0, 1, 0, [(''to_jimage'', Image (1, 0, 0)), (''cost'', PFloat 1)]),
      (0, 1, 1, [(''to_jimage'', Image (- 1, 0, 0)), (''cost'', PFloat 5)]),
      (0, 1, 2, [(''to_jimage'', Image (0, 0, 0)), (''cost'', PFloat 1)])] \<and>
   distinct (map edge_key
     [(0, 1, 0, [(''to_jimage'', Image (1, 0, 0)), (''cost'', PFloat 1)]),
      (0, 1, 1, [(''to_jimage'', Image (- 1, 0, 0)), (''cost'', PFloat 5)]),
      (0, 1, 2, [(''to_jimage'', Image (0, 0, 0)), (''cost'', PFloat 1)])]) \<and>
   list_all has_jimage
     [(0, 1, 0, [(''to_jimage'', Image (1, 0, 0)), (''cost'', PFloat 1)]),
      (0, 1, 1, [(''to_jimage'', Image (- 1, 0, 0)), (''cost'', PFloat 5)]),
      (0, 1, 2, [(''to_jimage'', Image (0, 0, 0)), (''cost'', PFloat 1)])] \<and>
   trim_graph 2
     [(0, 1, 0, [(''to_jimage'', Image (1, 0, 0)), (''cost'', PFloat 1)]),
      (0, 1, 1, [(''to_jimage'', Image (- 1, 0, 0)), (''cost'', PFloat 5)]),
      (0, 1, 2, [(''to_jimage'', Image (0, 0, 0)), (''cost'', PFloat 1)])]
   = Inr [(0, 1, 0, [(''to_jimage'', Image (1, 0, 0)), (''cost'', PFloat 1)]),
          (0, 1, 2, [(''to_jimage'', Image (0, 0, 0)), (''cost'', PFloat 1)])] \<and>
   match_step
     [(0, 1, 0, [(''to_jimage'', Image (1, 0, 0)), (''cost'', PFloat 1)]),
      (0, 1, 2, [(''to_jimage'', Image (0, 0, 0)), (''cost'', PFloat 1)])]
     (1, (1, 2, 0)) (0, (0, 2, 0)) []
   = Inr [[(''to_jimage'', Image (1, 0, 0)), (''cost'', PFloat 1)]] \<and>
   match_step
     [(0, 1, 0, [(''to_jimage'', Image (1, 0, 0)), (''cost'', PFloat 1)]),
      (0, 1, 2, [(''to_jimage'', Image (0, 0, 0)), (''cost'', PFloat 1)])]
     (1, (1, 2, 0)) (0, (1, 1, 0)) []
   = Inl RuntimeError \<and>
   path_hops_of 2
     [(0, 1, 0, [(''to_jimage'', Image (1, 0, 0)), (''cost'', PFloat 1)]),
      (0, 1, 1, [(''to_jimage'', Image (- 1, 0, 0)), (''cost'', PFloat 5)]),
      (0, 1, 2, [(''to_jimage'', Image (0, 0, 0)), (''cost'', PFloat 1)])]
     [(0, (0, 0, 0)), (1, (1, 0, 0)), (0, (1, 0, 0))]
   = Inr [[(''to_jimage'', Image (1, 0, 0)), (''cost'', PFloat 1)],
          [(''to_jimage'', Image (0, 0, 0)), (''cost'', PFloat 1)]]"
proof -
  let ?dp = "[(''to_jimage'', Image (1, 0, 0)), (''cost'', PFloat 1)] :: pydict"
  let ?dm = "[(''to_jimage'', Image (- 1, 0, 0)), (''cost'', PFloat 5)] :: pydict"
  let ?d0 = "[(''to_jimage'', Image (0, 0, 0)), (''cost'', PFloat 1)] :: pydict"
  let ?G = "[(0, 1, 0, ?dp), (0, 1, 1, ?dm), (0, 1, 2, ?d0)] :: graph"
  let ?K = "[(0, 1, 0, ?dp), (0, 1, 2, ?d0)] :: graph"
  let ?path = "[(0, (0, 0, 0)), (1, (1, 0, 0)), (0, (1, 0, 0))] :: (nat \<times> jimage) list"
  have c: "list_all has_number_cost ?G" by (simp add: has_number_cost_def edge_dict_def)
  have k: "distinct (map edge_key ?G)" by (simp add: edge_key_def)
  have j: "list_all has_jimage ?G" by (simp add: has_jimage_def to_jimage_of_def edge_dict_def)
  have kept: "kept_edges 2 ?G = ?K" by (simp add: kept_edges_def within_cost_def edge_dict_def)
  have one: "matching_edges ?K (1, (1, 2, 0)) (0, (0, 2, 0)) = [?dp]"
    by (simp add: matching_edges_def is_match_def sorted_pair_def to_jimage_of_def edge_dict_def)
  have none: "length (matching_edges ?K (1, (1, 2, 0)) (0, (1, 1, 0))) \<noteq> 1"
    by (simp add: matching_edges_def is_match_def sorted_pair_def to_jimage_of_def edge_dict_def)
  have all: "\<forall>p\<in>set (zip (butlast ?path) (tl ?path)). length (matching_edges ?K (fst p) (snd p)) = 1"
    by (simp add: matching_edges_def is_match_def sorted_pair_def to_jimage_of_def edge_dict_def)
  have cat: "concat (map (\<lambda>p. matching_edges ?K (fst p) (snd p)) (zip (butlast ?path) (tl ?path)))
             = [?dp, ?d0]"
    by (simp add: matching_edges_def is_match_def sorted_pair_def to_jimage_of_def edge_dict_def)
  note th = path_hops_of_pruned[OF c k j, of 2, unfolded kept]
  have t: "trim_graph 2 ?G = Inr ?K" using th[of "(1, (1, 2, 0))" "(0, (0, 2, 0))" "[]" ?path] by blast
  have a: "match_step ?K (1, (1, 2, 0)) (0, (0, 2, 0)) [] = Inr ([] @ [?dp])"
    using th[of "(1, (1, 2, 0))" "(0, (0, 2, 0))" "[]" ?path] one by blast
  have b: "match_step ?K (1, (1, 2, 0)) (0, (1, 1, 0)) [] = Inl RuntimeError"
    using th[of "(1, (1, 2, 0))" "(0, (1, 1, 0))" "[]" ?path] none by blast
  have p: "path_hops_of 2 ?G ?path = Inr [?dp, ?d0]"
    using th[of "(1, (1, 2, 0))" "(0, (0, 2, 0))" "[]" ?path] all unfolding cat by blast
  show ?thesis using c k j t a b p by simp
qed

section \<open>Properties of \<open>modify_path\<close>\<close>

lemma to_jimage_of_dict_set [simp]:
  "to_jimage_of (dict_set d ''to_jimage'' (Image j)) = Inr j"
  by (simp add: to_jimage_of_def dict_set_def update_conv')

lemma image_neg_zero [simp]: "(image_neg j = (0, 0, 0)) = (j = (0, 0, 0))"
  by (cases j) auto

lemma stays_not_crosses: "stays h \<Longrightarrow> \<not> crosses h"
  by (simp add: stays_def crosses_def)

lemma crosses_flip:
  assumes "to_jimage_of (hop_d h) = Inr j"
  shows "crosses (hop_e h, hop_i h, dict_set (hop_d h) ''to_jimage'' (Image (image_neg j))) = crosses h"
    and "stays (hop_e h, hop_i h, dict_set (hop_d h) ''to_jimage'' (Image (image_neg j))) = stays h"
  using assms by (simp_all add: crosses_def stays_def hop_d_def)

lemma stays_or_crosses_image:
  "stays h \<or> crosses h \<Longrightarrow> \<exists>j. to_jimage_of (hop_d h) = Inr j"
  by (auto simp: stays_def crosses_def split: sum.splits)

lemma walk_Cons_start:
  assumes "hop_i h = prev" "hop_e h \<noteq> prev"
  shows "walk prev (h # hs) m = walk (hop_e h) hs (m @ [h])"
  using assms by (simp add: Let_def list.case_eq_if)

lemma walk_Cons_end:
  assumes "hop_e h = prev" "hop_i h \<noteq> prev" "to_jimage_of (hop_d h) = Inr j"
  shows "walk prev (h # hs) m =
         walk (hop_i h) hs (m @ [(hop_e h, hop_i h, dict_set (hop_d h) ''to_jimage'' (Image (image_neg j)))])"
  using assms by (simp add: Let_def hop_e_def)

lemma walk_chained:
  assumes "chained prev hs" and "\<forall>h\<in>set hs. stays h \<or> crosses h"
  shows "\<exists>m'. walk prev hs m = Inr (m @ m') \<and> map crosses m' = map crosses hs \<and>
               map stays m' = map stays hs"
  using assms
proof (induction hs arbitrary: prev m)
  case Nil
  then show ?case by simp
next
  case (Cons h hs)
  from Cons.prems have ne: "hop_i h \<noteq> hop_e h" by simp
  from Cons.prems obtain j where j: "to_jimage_of (hop_d h) = Inr j"
    using stays_or_crosses_image[of h] by auto
  have rest: "\<forall>h\<in>set hs. stays h \<or> crosses h" using Cons.prems by simp
  show ?case
  proof (cases "hop_i h = prev")
    case True
    then have ch: "chained (hop_e h) hs" using Cons.prems ne by auto
    obtain m' where m': "walk (hop_e h) hs (m @ [h]) = Inr ((m @ [h]) @ m')"
      "map crosses m' = map crosses hs" "map stays m' = map stays hs"
      using Cons.IH[OF ch rest, of "m @ [h]"] by blast
    have "walk prev (h # hs) m = Inr (m @ (h # m'))"
      using walk_Cons_start[of h prev hs m] True ne m'(1) by simp
    then show ?thesis using m'(2,3) by (intro exI[of _ "h # m'"]) simp
  next
    case False
    then have e: "hop_e h = prev" and ch: "chained (hop_i h) hs" using Cons.prems by auto
    let ?f = "(hop_e h, hop_i h, dict_set (hop_d h) ''to_jimage'' (Image (image_neg j)))"
    obtain m' where m': "walk (hop_i h) hs (m @ [?f]) = Inr ((m @ [?f]) @ m')"
      "map crosses m' = map crosses hs" "map stays m' = map stays hs"
      using Cons.IH[OF ch rest, of "m @ [?f]"] by blast
    have "walk prev (h # hs) m = Inr (m @ (?f # m'))"
      using walk_Cons_end[of h prev j hs m] False e j m'(1) by simp
    then show ?thesis using m'(2,3) crosses_flip[OF j] by (intro exI[of _ "?f # m'"]) simp
  qed
qed

lemma list_all_cong_map:
  "map P xs = map P ys \<Longrightarrow> list_all P xs = list_all P ys"
proof (induction xs arbitrary: ys)
  case Nil
  then show ?case by simp
next
  case (Cons x xs)
  then obtain y ys' where "ys = y # ys'" by (cases ys) auto
  then show ?case using Cons by auto
qed

lemma last_hop_crosses_only_map:
  assumes "map crosses m = map crosses p" "map stays m = map stays p"
    and "last_hop_crosses_only p"
  shows "last_hop_crosses_only m"
proof -
  have len: "length m = length p" using assms(1) by (metis length_map)
  have ne: "p \<noteq> []" "m \<noteq> []" using assms(3) len by (auto simp: last_hop_crosses_only_def)
  have "crosses (last m) = crosses (last p)"
    using assms(1) ne by (metis last_map)
  moreover have "map stays (butlast m) = map stays (butlast p)"
    using assms(2) by (metis map_butlast)
  then have "list_all stays (butlast m) = list_all stays (butlast p)"
    by (rule list_all_cong_map)
  ultimately show ?thesis using assms(3) ne by (simp add: last_hop_crosses_only_def)
qed

lemma normalise_one_crossing:
  assumes "one_crossing_at_end p" "normalise p = Inr p'" "2 \<le> length p"
  shows "last_hop_crosses_only p'"
proof -
  from assms(1) have ne: "p \<noteq> []" by (simp add: one_crossing_at_end_def)
  then obtain h0 rest where p: "p = h0 # rest" by (cases p) auto
  show ?thesis
  proof (cases "crosses h0")
    case True
    then have st: "list_all stays rest"
      using assms(1,3) p stays_not_crosses[of h0]
      by (auto simp: one_crossing_at_end_def split: if_splits)
    from True have "p' = rev p"
      using assms(2) p by (auto simp: normalise_def crosses_def split: sum.splits if_splits)
    then show ?thesis using True st p by (simp add: last_hop_crosses_only_def butlast_append)
  next
    case False
    then have l: "crosses (last p)" "list_all stays (butlast p)"
      using assms(1) p by (auto simp: one_crossing_at_end_def)
    then have "stays h0" using p assms(3) by (cases rest) auto
    then have "p' = p"
      using assms(2) p by (auto simp: normalise_def stays_def)
    then show ?thesis using l ne by (simp add: last_hop_crosses_only_def)
  qed
qed

lemma last_hop_crosses_only_all:
  "last_hop_crosses_only p \<Longrightarrow> h \<in> set p \<Longrightarrow> stays h \<or> crosses h"
proof -
  assume a: "last_hop_crosses_only p" and h: "h \<in> set p"
  then have "p \<noteq> []" by (simp add: last_hop_crosses_only_def)
  from append_butlast_last_id[OF this] have "set (butlast p @ [last p]) = set p" by simp
  then have "h \<in> set (butlast p) \<or> h = last p" using h by auto
  then show ?thesis using a by (auto simp: last_hop_crosses_only_def list_all_iff)
qed

lemma normalise_length: "normalise p = Inr p' \<Longrightarrow> length p' = length p"
  by (auto simp: normalise_def split: list.splits sum.splits if_splits)

lemma modify_one_reorderable:
  assumes "reorderable first_of p"
  shows "\<exists>m. modify_one first_of p = Inr m \<and> last_hop_crosses_only m"
proof -
  from assms obtain a b rest where n: "normalise p = Inr (a # b # rest)"
    by (auto simp: reorderable_def split: sum.splits list.splits)
  have oc: "one_crossing_at_end p" using assms by (simp add: reorderable_def)
  have "2 \<le> length p" using normalise_length[OF n] by simp
  then have can: "last_hop_crosses_only (a # b # rest)"
    using normalise_one_crossing[OF oc n] by simp
  show ?thesis
  proof (cases "set [hop_i a, hop_e a] = set [hop_i b, hop_e b]")
    case True
    then have r: "rest = []" "hop_i a = hop_i b" using assms n by (auto simp: reorderable_def)
    have m: "modify_one first_of p = Inr [(hop_e a, hop_i a, hop_d a), b]"
      using n True r by (simp add: modify_one_def)
    have "stays (hop_e a, hop_i a, hop_d a) = stays a" by (simp add: stays_def hop_d_def)
    then have "last_hop_crosses_only [(hop_e a, hop_i a, hop_d a), b]"
      using can r by (simp add: last_hop_crosses_only_def)
    then show ?thesis using m by simp
  next
    case False
    then have c: "common_points (a # b # rest) \<noteq> []"
      "chained (first_of (common_points (a # b # rest))) (a # b # rest)"
      using assms n by (auto simp: reorderable_def)
    have all: "\<forall>h\<in>set (a # b # rest). stays h \<or> crosses h"
      using last_hop_crosses_only_all[OF can] by blast
    obtain m' where w: "walk (first_of (common_points (a # b # rest))) (a # b # rest) [] = Inr ([] @ m')"
      "map crosses m' = map crosses (a # b # rest)" "map stays m' = map stays (a # b # rest)"
      using walk_chained[OF c(2) all, of "[]"] by blast
    have "modify_one first_of p = Inr m'"
      using n False c(1) w(1) by (simp add: modify_one_def list.case_eq_if del: walk.simps)
    then show ?thesis using last_hop_crosses_only_map[OF w(2,3) can] by simp
  qed
qed

text \<open>
  Claim C2, as stated: every path yielded by \<open>modify_path\<close> has a last hop with
  \<open>to_jimage \<noteq> (0,0,0)\<close> and only hops with \<open>to_jimage = (0,0,0)\<close> before it. It fails on a
  path of three hops that leaves the cell twice, at its first and at its last hop (the
  route from a node to its image in the cell \<open>(1,1,0)\<close>): the path is reversed and walked
  from node 0, and the yielded path starts with a hop that leaves the cell. The first and
  the last hop share node 0 only, so the start point does not depend on the order in
  which Python lists the set.
\<close>

theorem modify_path_two_crossings_counterexample:
  "modify_path hd
     [[(0, 1, [(''to_jimage'', Image (1, 0, 0))]),
       (1, 2, [(''to_jimage'', Image (0, 0, 0))]),
       (0, 2, [(''to_jimage'', Image (0, 1, 0))])]]
   = ([[(0, 2, [(''to_jimage'', Image (0, 1, 0))]),
        (2, 1, [(''to_jimage'', Image (0, 0, 0))]),
        (1, 0, [(''to_jimage'', Image (- 1, 0, 0))])]], None)
   \<and> \<not> last_hop_crosses_only
        [(0, 2, [(''to_jimage'', Image (0, 1, 0))]),
         (2, 1, [(''to_jimage'', Image (0, 0, 0))]),
         (1, 0, [(''to_jimage'', Image (- 1, 0, 0))])]"
  by code_simp

text \<open>
  The other conditions of the amended claim are needed as well. A path that never leaves
  the cell is yielded as it is; a last hop that does not continue the walk is left out;
  and when the first two hops of a longer path join the same pair of nodes, only these
  two hops are yielded.
\<close>

lemma modify_path_no_crossing_example:
  "modify_path hd
     [[(0, 1, [(''to_jimage'', Image (0, 0, 0))]),
       (1, 2, [(''to_jimage'', Image (0, 0, 0))]),
       (2, 0, [(''to_jimage'', Image (0, 0, 0))])]]
   = ([[(0, 1, [(''to_jimage'', Image (0, 0, 0))]),
        (1, 2, [(''to_jimage'', Image (0, 0, 0))]),
        (2, 0, [(''to_jimage'', Image (0, 0, 0))])]], None)"
  by code_simp

lemma modify_path_unchained_example:
  "modify_path hd
     [[(0, 1, [(''to_jimage'', Image (0, 0, 0))]),
       (1, 2, [(''to_jimage'', Image (0, 0, 0))]),
       (3, 0, [(''to_jimage'', Image (1, 0, 0))])]]
   = ([[(0, 1, [(''to_jimage'', Image (0, 0, 0))]),
        (1, 2, [(''to_jimage'', Image (0, 0, 0))])]], None)"
  by code_simp

lemma modify_path_truncated_example:
  "modify_path hd
     [[(0, 1, [(''to_jimage'', Image (0, 0, 0))]),
       (0, 1, [(''to_jimage'', Image (0, 0, 0))]),
       (0, 0, [(''to_jimage'', Image (1, 0, 0))])]]
   = ([[(1, 0, [(''to_jimage'', Image (0, 0, 0))]),
        (0, 1, [(''to_jimage'', Image (0, 0, 0))])]], None)"
  by code_simp

text \<open>
  Claim C2, amended. When every input path has exactly one hop that leaves the cell, as
  its first or its last hop, and after the reversal either consists of two hops on the
  same pair of nodes with the same first node, or has its first two hops on different
  pairs of nodes and chains (walking from the start point the code picks, every hop has
  exactly one end at the current point), then \<open>modify_path\<close> raises nothing and yields one
  path per input path, each with a last hop that leaves the cell and only hops inside the
  cell before it.
\<close>

theorem modify_path_reorderable:
  assumes "\<forall>p\<in>set paths. reorderable first_of p"
  shows "\<exists>ms. modify_path first_of paths = (ms, None) \<and> length ms = length paths \<and>
              list_all last_hop_crosses_only ms"
  using assms
proof (induction paths)
  case Nil
  then show ?case by simp
next
  case (Cons p paths)
  then obtain ms where ms: "modify_path first_of paths = (ms, None)" "length ms = length paths"
    "list_all last_hop_crosses_only ms" by auto
  obtain m where m: "modify_one first_of p = Inr m" "last_hop_crosses_only m"
    using modify_one_reorderable[of first_of p] Cons.prems by auto
  show ?case using ms m by simp
qed

theorem modify_path_reorderable_witness:
  "reorderable hd [(0, 1, [(''to_jimage'', Image (0, 0, 0))]),
                   (1, 2, [(''to_jimage'', Image (0, 0, 0))]),
                   (0, 2, [(''to_jimage'', Image (0, 1, 0))])] \<and>
   reorderable hd [(0, 1, [(''to_jimage'', Image (1, 0, 0))]),
                   (0, 1, [(''to_jimage'', Image (0, 0, 0))])] \<and>
   (\<exists>ms. modify_path hd
            [[(0, 1, [(''to_jimage'', Image (0, 0, 0))]),
              (1, 2, [(''to_jimage'', Image (0, 0, 0))]),
              (0, 2, [(''to_jimage'', Image (0, 1, 0))])],
             [(0, 1, [(''to_jimage'', Image (1, 0, 0))]),
              (0, 1, [(''to_jimage'', Image (0, 0, 0))])]] = (ms, None) \<and>
          length ms = 2 \<and> list_all last_hop_crosses_only ms)"
proof -
  let ?p = "[(0, 1, [(''to_jimage'', Image (0, 0, 0))]),
             (1, 2, [(''to_jimage'', Image (0, 0, 0))]),
             (0, 2, [(''to_jimage'', Image (0, 1, 0))])] :: hop_info list"
  let ?q = "[(0, 1, [(''to_jimage'', Image (1, 0, 0))]),
             (0, 1, [(''to_jimage'', Image (0, 0, 0))])] :: hop_info list"
  have p: "reorderable hd ?p" by code_simp
  have q: "reorderable hd ?q" by code_simp
  have "\<forall>x\<in>set [?p, ?q]. reorderable hd x" using p q by simp
  from modify_path_reorderable[OF this]
  obtain ms where ms: "modify_path hd [?p, ?q] = (ms, None)" "length ms = length [?p, ?q]"
    "list_all last_hop_crosses_only ms" by blast
  have "length ms = 2" using ms(2) by simp
  then show ?thesis using p q ms(1,3) by blast
qed

text \<open>
  Claim C10. A path of exactly two hops whose end points are the same pair of nodes but
  whose first nodes differ (after the reversal of a path that starts with a hop leaving
  the cell) is yielded as the empty list: both hops are dropped and nothing is raised.
  The witness is such a path.
\<close>

theorem modify_path_drops_two_hops:
  assumes "normalise p = Inr [a, b]"
    and "set [hop_i a, hop_e a] = set [hop_i b, hop_e b]"
    and "hop_i a \<noteq> hop_i b"
  shows "length p = 2 \<and> modify_path first_of [p] = ([[]], None)"
  using assms normalise_length[OF assms(1)] by (simp add: modify_one_def)

theorem modify_path_drops_two_hops_witness:
  "normalise [(0, 1, [(''to_jimage'', Image (0, 0, 0))]), (1, 0, [(''to_jimage'', Image (1, 0, 0))])]
     = Inr [(0, 1, [(''to_jimage'', Image (0, 0, 0))]), (1, 0, [(''to_jimage'', Image (1, 0, 0))])] \<and>
   length [(0 :: nat, 1 :: nat, [(''to_jimage'', Image (0, 0, 0))]), (1, 0, [(''to_jimage'', Image (1, 0, 0))])] = 2 \<and>
   modify_path hd [[(0, 1, [(''to_jimage'', Image (0, 0, 0))]), (1, 0, [(''to_jimage'', Image (1, 0, 0))])]]
     = ([[]], None)"
proof -
  let ?a = "(0, 1, [(''to_jimage'', Image (0, 0, 0))]) :: hop_info"
  let ?b = "(1, 0, [(''to_jimage'', Image (1, 0, 0))]) :: hop_info"
  have n: "normalise [?a, ?b] = Inr [?a, ?b]" by code_simp
  have s: "set [hop_i ?a, hop_e ?a] = set [hop_i ?b, hop_e ?b]" by code_simp
  have d: "hop_i ?a \<noteq> hop_i ?b" by code_simp
  from modify_path_drops_two_hops[OF n s d, of hd]
  have "length [?a, ?b] = 2" "modify_path hd [[?a, ?b]] = ([[]], None)" by blast+
  then show ?thesis using n by blast
qed

section \<open>Properties of \<open>add_data_to_similar_edges\<close>\<close>

lemma map_of_dict_set: "map_of (dict_set d k v) k' = (if k' = k then Some v else map_of d k')"
  by (simp add: dict_set_def update_conv')

lemma dict_update_Cons: "dict_update d ((k, v) # data) = dict_update (dict_set d k v) data"
  by (simp add: dict_update_def)

lemma map_of_dict_update:
  assumes "distinct (map fst data)"
  shows "map_of (dict_update d data) k = (case map_of data k of None \<Rightarrow> map_of d k | Some v \<Rightarrow> Some v)"
  using assms
proof (induction data arbitrary: d)
  case Nil
  then show ?case by (simp add: dict_update_def)
next
  case (Cons kv data)
  obtain k' v where kv: "kv = (k', v)" by (cases kv)
  have d: "distinct (map fst data)" and notin: "k' \<notin> fst ` set data" using Cons.prems kv by auto
  have none: "map_of data k' = None" using notin by (simp add: map_of_eq_None_iff)
  show ?case
    using Cons.IH[OF d, of "dict_set d k' v"] kv none
    by (auto simp: dict_update_Cons map_of_dict_set split: option.splits)
qed

lemma flip_data_frame:
  assumes "distinct ks" and "\<forall>k\<in>set ks. map_of d k = map_of data k"
    and "flip_data data ks d = (d', err)"
  shows "map_of d' k = map_of d k \<or>
         (k \<in> set ks \<and> (\<exists>xs. map_of data k = Some (PList xs) \<and> map_of d' k = Some (PList (rev xs))))"
  using assms
proof (induction ks arbitrary: d)
  case Nil
  then show ?case by simp
next
  case (Cons k0 ks)
  have dist: "distinct ks" "k0 \<notin> set ks" using Cons.prems(1) by auto
  show ?case
  proof (cases "\<exists>xs. map_of data k0 = Some (PList xs)")
    case True
    then obtain xs where xs: "map_of data k0 = Some (PList xs)" by blast
    then have dk: "map_of d k0 = Some (PList xs)" using Cons.prems(2) by simp
    let ?d1 = "dict_set d k0 (PList (rev xs))"
    have step: "flip_data data (k0 # ks) d = flip_data data ks ?d1" using xs dk by simp
    have pre: "\<forall>k\<in>set ks. map_of ?d1 k = map_of data k"
      using Cons.prems(2) dist by (auto simp: map_of_dict_set)
    have ih: "map_of d' k = map_of ?d1 k \<or>
         (k \<in> set ks \<and> (\<exists>xs. map_of data k = Some (PList xs) \<and> map_of d' k = Some (PList (rev xs))))"
      using Cons.IH[OF dist(1) pre] Cons.prems(3) step by simp
    show ?thesis
    proof (cases "k = k0")
      case True
      then have "map_of d' k = Some (PList (rev xs))" using ih dist by (auto simp: map_of_dict_set)
      then show ?thesis using True xs by simp
    next
      case False
      then show ?thesis using ih by (auto simp: map_of_dict_set)
    qed
  next
    case False
    have pre: "\<forall>k\<in>set ks. map_of d k = map_of data k" using Cons.prems(2) by simp
    consider (stop) "flip_data data (k0 # ks) d = (d, err)"
      | (skip) "flip_data data (k0 # ks) d = flip_data data ks d"
      using False Cons.prems(3) by (auto split: option.splits pyval.splits)
    then show ?thesis
    proof cases
      case stop
      then show ?thesis using Cons.prems(3) by simp
    next
      case skip
      then show ?thesis using Cons.IH[OF dist(1) pre] Cons.prems(3) by auto
    qed
  qed
qed

lemma flip_data_array:
  assumes "distinct ks" and "\<forall>k\<in>set ks. map_of d k = map_of data k"
    and "\<forall>k\<in>set ks. map_of data k \<noteq> None"
    and "k \<in> set ks" "is_array (map_of data k)"
  shows "snd (flip_data data ks d) = Some Warning"
  using assms
proof (induction ks arbitrary: d)
  case Nil
  then show ?case by simp
next
  case (Cons k0 ks)
  have dist: "distinct ks" "k0 \<notin> set ks" using Cons.prems(1) by auto
  obtain v0 where v0: "map_of data k0 = Some v0" using Cons.prems(3) by auto
  then have dk: "map_of d k0 = Some v0" using Cons.prems(2) by simp
  have some: "\<forall>k\<in>set ks. map_of data k \<noteq> None" using Cons.prems(3) by simp
  show ?case
  proof (cases "is_array (Some v0)")
    case True
    then show ?thesis using v0 by (auto simp: is_array_def split: pyval.splits)
  next
    case False
    then have k: "k \<in> set ks" using Cons.prems(4,5) v0 by auto
    show ?thesis
    proof (cases v0)
      case (PList xs)
      let ?d1 = "dict_set d k0 (PList (rev xs))"
      have pre: "\<forall>k\<in>set ks. map_of ?d1 k = map_of data k"
        using Cons.prems(2) dist by (auto simp: map_of_dict_set)
      have "flip_data data (k0 # ks) d = flip_data data ks ?d1" using v0 dk PList by simp
      then show ?thesis using Cons.IH[OF dist(1) pre some k Cons.prems(5)] by simp
    next
      case (PInt i)
      have pre: "\<forall>k\<in>set ks. map_of d k = map_of data k" using Cons.prems(2) by simp
      have "flip_data data (k0 # ks) d = flip_data data ks d" using v0 PInt by simp
      then show ?thesis using Cons.IH[OF dist(1) pre some k Cons.prems(5)] by simp
    next
      case (PStr x)
      have pre: "\<forall>k\<in>set ks. map_of d k = map_of data k" using Cons.prems(2) by simp
      have "flip_data data (k0 # ks) d = flip_data data ks d" using v0 PStr by simp
      then show ?thesis using Cons.IH[OF dist(1) pre some k Cons.prems(5)] by simp
    next
      case (PFloat x)
      have pre: "\<forall>k\<in>set ks. map_of d k = map_of data k" using Cons.prems(2) by simp
      have "flip_data data (k0 # ks) d = flip_data data ks d" using v0 PFloat by simp
      then show ?thesis using Cons.IH[OF dist(1) pre some k Cons.prems(5)] by simp
    next
      case (Image x)
      have pre: "\<forall>k\<in>set ks. map_of d k = map_of data k" using Cons.prems(2) by simp
      have "flip_data data (k0 # ks) d = flip_data data ks d" using v0 Image by simp
      then show ?thesis using Cons.IH[OF dist(1) pre some k Cons.prems(5)] by simp
    next
      case (HopV x)
      have pre: "\<forall>k\<in>set ks. map_of d k = map_of data k" using Cons.prems(2) by simp
      have "flip_data data (k0 # ks) d = flip_data data ks d" using v0 HopV by simp
      then show ?thesis using Cons.IH[OF dist(1) pre some k Cons.prems(5)] by simp
    next
      case (NpScalar x)
      then show ?thesis using False by (simp add: is_array_def)
    next
      case (NdArray x)
      then show ?thesis using False by (simp add: is_array_def)
    qed
  qed
qed

lemma broadcast_frame_refl: "broadcast_frame target_label data m_path e e"
  by (simp add: broadcast_frame_def)

lemma map_of_keys_Some:
  "k \<in> fst ` set data \<Longrightarrow> \<exists>v. map_of data k = Some v"
  by (metis map_of_eq_None_iff not_None_eq)

lemma dict_update_keys:
  assumes "distinct (map fst data)"
  shows "\<forall>k\<in>set (map fst data). map_of (dict_update d data) k = map_of data k"
proof
  fix k assume "k \<in> set (map fst data)"
  then obtain v where "map_of data k = Some v" using map_of_keys_Some[of k data] by auto
  then show "map_of (dict_update d data) k = map_of data k"
    using map_of_dict_update[OF assms, of d k] by simp
qed

lemma dict_update_other:
  assumes "distinct (map fst data)" "k \<notin> fst ` set data"
  shows "map_of (dict_update d data) k = map_of d k"
proof -
  have "map_of data k = None" using assms(2) by (simp add: map_of_eq_None_iff)
  then show ?thesis using map_of_dict_update[OF assms(1), of d k] by simp
qed

lemma broadcast_frame_update:
  assumes dist: "distinct (map fst data)" and lab: "hop_label_of d = Inr target_label"
  shows "broadcast_frame target_label data m_path (u, v, key, d) (u, v, key, dict_update d data)"
proof -
  have a: "map_of (dict_update d data) k = map_of d k \<or> map_of (dict_update d data) k = map_of data k" for k
    using map_of_dict_update[OF dist, of d k] by (cases "map_of data k") auto
  have b: "k \<notin> fst ` set data \<Longrightarrow> map_of (dict_update d data) k = map_of d k" for k
    using dict_update_other[OF dist] by simp
  show ?thesis
    unfolding broadcast_frame_def using b lab
    by (simp add: edge_dict_def) (use a in blast)
qed

lemma broadcast_frame_flip:
  assumes dist: "distinct (map fst data)" and lab: "hop_label_of d = Inr target_label"
    and dis: "disagrees m_path (dict_update d data)"
    and fl: "flip_data data (map fst data) (dict_update d data) = (d2, err)"
  shows "broadcast_frame target_label data m_path (u, v, key, d) (u, v, key, d2)"
proof -
  let ?d1 = "dict_update d data"
  have fr: "map_of d2 k = map_of ?d1 k \<or>
         (k \<in> set (map fst data) \<and> (\<exists>xs. map_of data k = Some (PList xs) \<and> map_of d2 k = Some (PList (rev xs))))" for k
    by (rule flip_data_frame[OF dist dict_update_keys[OF dist] fl])
  have a: "map_of ?d1 k = map_of d k \<or> map_of ?d1 k = map_of data k" for k
    using map_of_dict_update[OF dist, of d k] by (cases "map_of data k") auto
  have b: "map_of d2 k = map_of d k" if "k \<notin> fst ` set data" for k
    using fr[of k] that dict_update_other[OF dist that, of d] by auto
  have c: "map_of d2 k = map_of d k \<or> map_of d2 k = map_of data k \<or>
           (disagrees m_path ?d1 \<and> (\<exists>xs. map_of data k = Some (PList xs) \<and> map_of d2 k = Some (PList (rev xs))))" for k
    using fr[of k] a[of k] dis by auto
  show ?thesis
    unfolding broadcast_frame_def using b lab
    by (simp add: edge_dict_def) (use c in blast)
qed

lemma add_data_head:
  assumes "distinct (map fst data)"
  shows "\<exists>e' rest' err. add_data_to_similar_edges target_label data m_path (e # rest) = (e' # rest', err) \<and>
           broadcast_frame target_label data m_path e e' \<and>
           (rest' = rest \<or> rest' = fst (add_data_to_similar_edges target_label data m_path rest))"
proof -
  obtain u v key d where e: "e = (u, v, key, d)" by (cases e) auto
  let ?rec = "add_data_to_similar_edges target_label data m_path rest"
  let ?d1 = "dict_update d data"
  show ?thesis
  proof (cases "hop_label_of d")
    case (Inl x)
    then show ?thesis using e broadcast_frame_refl by simp
  next
    case (Inr l)
    show ?thesis
    proof (cases "l = target_label")
      case False
      then show ?thesis using e Inr broadcast_frame_refl by (simp add: cons_edge_def)
    next
      case True
      have lab: "hop_label_of d = Inr target_label" using Inr True by simp
      note upd = broadcast_frame_update[OF assms lab, of m_path u v key]
      show ?thesis
      proof (cases m_path)
        case None
        then show ?thesis using e Inr True upd by (simp add: cons_edge_def)
      next
        case (Some mp)
        show ?thesis
        proof (cases "hop_of ?d1")
          case (Inl x)
          then show ?thesis using e Inr True Some upd by simp
        next
          case hop: (Inr h)
          show ?thesis
          proof (cases "are_symmetrically_equivalent mp (ref_isite mp) (isite h)")
            case True
            then show ?thesis using e Inr \<open>l = target_label\<close> Some hop upd by (simp add: cons_edge_def)
          next
            case False
            then have dis: "disagrees m_path ?d1" using Some hop by (simp add: disagrees_def)
            obtain d2 err where fl: "flip_data data (map fst data) ?d1 = (d2, err)"
              by (cases "flip_data data (map fst data) ?d1")
            note fr = broadcast_frame_flip[OF assms lab dis fl, of u v key]
            show ?thesis
              using e Inr \<open>l = target_label\<close> Some hop False fl fr
              by (cases err) (simp_all add: cons_edge_def)
          qed
        qed
      qed
    qed
  qed
qed

text \<open>
  Claim C5. For every call of \<open>add_data_to_similar_edges\<close> with a dictionary \<open>data\<close> (its keys
  are distinct), whether it returns or raises: the graph keeps its edges; every edge whose
  label differs from \<open>target_label\<close> is unchanged; on every other edge the attributes whose
  key is not in \<open>data\<close> are unchanged; and an attribute that ends up different both from
  its old value and from the value given in \<open>data\<close> is the reversal of a list given in
  \<open>data\<close>, on an edge whose hop starts at a site not symmetrically equivalent to the initial
  site of the reference path.
\<close>

theorem add_data_to_similar_edges_frame:
  assumes "distinct (map fst data)"
  shows "length (fst (add_data_to_similar_edges target_label data m_path g)) = length g \<and>
         (\<forall>i<length g. broadcast_frame target_label data m_path (g ! i)
                          (fst (add_data_to_similar_edges target_label data m_path g) ! i))"
proof (induction g)
  case Nil
  then show ?case by simp
next
  case (Cons e rest)
  obtain e' rest' err where h: "add_data_to_similar_edges target_label data m_path (e # rest) = (e' # rest', err)"
    "broadcast_frame target_label data m_path e e'"
    "rest' = rest \<or> rest' = fst (add_data_to_similar_edges target_label data m_path rest)"
    using add_data_head[OF assms] by blast
  have r: "length rest' = length rest \<and> (\<forall>i<length rest. broadcast_frame target_label data m_path (rest ! i) (rest' ! i))"
  proof (cases "rest' = rest")
    case True
    then show ?thesis by (simp add: broadcast_frame_refl)
  next
    case False
    then show ?thesis using h(3) Cons.IH by simp
  qed
  have "broadcast_frame target_label data m_path ((e # rest) ! i) ((e' # rest') ! i)" if "i < length (e # rest)" for i
    using that h(2) r by (cases i) auto
  then show ?case using h(1) r by simp
qed

theorem add_data_to_similar_edges_frame_witness:
  "distinct (map fst [(''chg'', PList [PFloat 1, PFloat 2])]) \<and>
   add_data_to_similar_edges (IntLabel 0) [(''chg'', PList [PFloat 1, PFloat 2])]
     (Some \<lparr> ref_isite = PeriodicSite ''Li'' (0, 0, 0), are_symmetrically_equivalent = (=) \<rparr>)
     [(0, 1, 0, [(''hop_label'', PInt 0),
                 (''hop'', HopV (MigrationPath (PeriodicSite ''Li'' (0, 0, 0)) (PeriodicSite ''Li'' (1, 0, 0)) 2))]),
      (0, 1, 1, [(''hop_label'', PInt 0),
                 (''hop'', HopV (MigrationPath (PeriodicSite ''Li'' (1, 0, 0)) (PeriodicSite ''Li'' (0, 0, 0)) 2))]),
      (1, 1, 0, [(''hop_label'', PInt 1),
                 (''hop'', HopV (MigrationPath (PeriodicSite ''Li'' (1, 0, 0)) (PeriodicSite ''Li'' (1, 0, 0)) 3))])]
   = ([(0, 1, 0, [(''hop_label'', PInt 0),
                  (''hop'', HopV (MigrationPath (PeriodicSite ''Li'' (0, 0, 0)) (PeriodicSite ''Li'' (1, 0, 0)) 2)),
                  (''chg'', PList [PFloat 1, PFloat 2])]),
       (0, 1, 1, [(''hop_label'', PInt 0),
                  (''hop'', HopV (MigrationPath (PeriodicSite ''Li'' (1, 0, 0)) (PeriodicSite ''Li'' (0, 0, 0)) 2)),
                  (''chg'', PList [PFloat 2, PFloat 1])]),
       (1, 1, 0, [(''hop_label'', PInt 1),
                  (''hop'', HopV (MigrationPath (PeriodicSite ''Li'' (1, 0, 0)) (PeriodicSite ''Li'' (1, 0, 0)) 3))])],
      None) \<and>
   broadcast_frame (IntLabel 0) [(''chg'', PList [PFloat 1, PFloat 2])]
     (Some \<lparr> ref_isite = PeriodicSite ''Li'' (0, 0, 0), are_symmetrically_equivalent = (=) \<rparr>)
     (0, 1, 1, [(''hop_label'', PInt 0),
                (''hop'', HopV (MigrationPath (PeriodicSite ''Li'' (1, 0, 0)) (PeriodicSite ''Li'' (0, 0, 0)) 2))])
     (0, 1, 1, [(''hop_label'', PInt 0),
                (''hop'', HopV (MigrationPath (PeriodicSite ''Li'' (1, 0, 0)) (PeriodicSite ''Li'' (0, 0, 0)) 2)),
                (''chg'', PList [PFloat 2, PFloat 1])])"
proof -
  let ?data = "[(''chg'', PList [PFloat 1, PFloat 2])] :: pydict"
  let ?mp = "Some \<lparr> ref_isite = PeriodicSite ''Li'' (0, 0, 0), are_symmetrically_equivalent = (=) \<rparr>"
  let ?e0 = "(0, 1, 0, [(''hop_label'', PInt 0),
                 (''hop'', HopV (MigrationPath (PeriodicSite ''Li'' (0, 0, 0)) (PeriodicSite ''Li'' (1, 0, 0)) 2))]) :: edge"
  let ?e1 = "(0, 1, 1, [(''hop_label'', PInt 0),
                 (''hop'', HopV (MigrationPath (PeriodicSite ''Li'' (1, 0, 0)) (PeriodicSite ''Li'' (0, 0, 0)) 2))]) :: edge"
  let ?e2 = "(1, 1, 0, [(''hop_label'', PInt 1),
                 (''hop'', HopV (MigrationPath (PeriodicSite ''Li'' (1, 0, 0)) (PeriodicSite ''Li'' (1, 0, 0)) 3))]) :: edge"
  let ?f0 = "(0, 1, 0, [(''hop_label'', PInt 0),
                  (''hop'', HopV (MigrationPath (PeriodicSite ''Li'' (0, 0, 0)) (PeriodicSite ''Li'' (1, 0, 0)) 2)),
                  (''chg'', PList [PFloat 1, PFloat 2])]) :: edge"
  let ?f1 = "(0, 1, 1, [(''hop_label'', PInt 0),
                  (''hop'', HopV (MigrationPath (PeriodicSite ''Li'' (1, 0, 0)) (PeriodicSite ''Li'' (0, 0, 0)) 2)),
                  (''chg'', PList [PFloat 2, PFloat 1])]) :: edge"
  have dist: "distinct (map fst ?data)" by simp
  have run: "add_data_to_similar_edges (IntLabel 0) ?data ?mp [?e0, ?e1, ?e2] = ([?f0, ?f1, ?e2], None)"
    by (simp add: hop_label_of_def hop_of_def dict_update_def dict_set_def cons_edge_def)
  have fr: "\<forall>i<length [?e0, ?e1, ?e2]. broadcast_frame (IntLabel 0) ?data ?mp ([?e0, ?e1, ?e2] ! i)
               ([?f0, ?f1, ?e2] ! i)"
    using add_data_to_similar_edges_frame[OF dist, of "IntLabel 0" ?mp "[?e0, ?e1, ?e2]"]
    unfolding run fst_conv by (rule conjunct2)
  have l: "(1 :: nat) < length [?e0, ?e1, ?e2]" by simp
  have n1: "[?e0, ?e1, ?e2] ! 1 = ?e1" by simp
  have n2: "[?f0, ?f1, ?e2] ! 1 = ?f1" by simp
  from fr l have "broadcast_frame (IntLabel 0) ?data ?mp ([?e0, ?e1, ?e2] ! 1) ([?f0, ?f1, ?e2] ! 1)"
    by blast
  then have "broadcast_frame (IntLabel 0) ?data ?mp ?e1 ?f1"
    unfolding n1 n2 .
  then show ?thesis using dist run by blast
qed

lemma flip_data_keys_array:
  assumes dist: "distinct (map fst data)" and k: "k \<in> fst ` set data" and arr: "is_array (map_of data k)"
  shows "snd (flip_data data (map fst data) (dict_update d data)) = Some Warning"
proof -
  have some: "\<forall>k\<in>set (map fst data). map_of data k \<noteq> None"
    using map_of_keys_Some by fastforce
  have kin: "k \<in> set (map fst data)" using k by simp
  show ?thesis
    by (rule flip_data_array[OF dist dict_update_keys[OF dist] some kin arr])
qed

lemma add_data_array_raises_aux:
  assumes dist: "distinct (map fst data)"
    and k: "k \<in> fst ` set data" and arr: "is_array (map_of data k)"
    and i: "i < length g" and lab: "hop_label_of (edge_dict (g ! i)) = Inr target_label"
    and dis: "disagrees (Some mp) (dict_update (edge_dict (g ! i)) data)"
  shows "(\<exists>e. snd (add_data_to_similar_edges target_label data (Some mp) g) = Some e) \<and>
         (list_all has_label g \<and> list_all (\<lambda>e. has_hop (dict_update (edge_dict e) data)) g \<longrightarrow>
            snd (add_data_to_similar_edges target_label data (Some mp) g) = Some Warning)"
  using i lab dis
proof (induction g arbitrary: i)
  case Nil
  then show ?case by simp
next
  case (Cons e rest)
  obtain u v key d where e: "e = (u, v, key, d)" by (cases e) auto
  let ?d1 = "dict_update d data"
  have later: "(\<exists>x. snd (add_data_to_similar_edges target_label data (Some mp) rest) = Some x) \<and>
         (list_all has_label rest \<and> list_all (\<lambda>e. has_hop (dict_update (edge_dict e) data)) rest \<longrightarrow>
            snd (add_data_to_similar_edges target_label data (Some mp) rest) = Some Warning)"
    if nz: "i \<noteq> 0"
  proof -
    obtain j where j: "i = Suc j" using nz by (cases i) auto
    show ?thesis using Cons.IH[of j] Cons.prems j by simp
  qed
  show ?case
  proof (cases "hop_label_of d")
    case (Inl x)
    then show ?thesis using e by (simp add: has_label_def edge_dict_def)
  next
    case (Inr l)
    show ?thesis
    proof (cases "l = target_label")
      case False
      have "i \<noteq> 0"
      proof
        assume "i = 0"
        then show False using Cons.prems(2) e Inr False by (simp add: edge_dict_def)
      qed
      then show ?thesis using later e Inr False by (simp add: cons_edge_def)
    next
      case True
      show ?thesis
      proof (cases "hop_of ?d1")
        case (Inl x)
        then show ?thesis using e Inr True by (simp add: has_hop_def edge_dict_def)
      next
        case hop: (Inr h)
        show ?thesis
        proof (cases "are_symmetrically_equivalent mp (ref_isite mp) (isite h)")
          case agree: True
          have "i \<noteq> 0"
          proof
            assume "i = 0"
            then show False using Cons.prems(3) e hop agree by (simp add: edge_dict_def disagrees_def)
          qed
          then show ?thesis using later e Inr True hop agree by (simp add: cons_edge_def)
        next
          case False
          obtain d2 err where fl: "flip_data data (map fst data) ?d1 = (d2, err)"
            by (cases "flip_data data (map fst data) ?d1")
          have "err = Some Warning" using flip_data_keys_array[OF dist k arr, of d] fl by simp
          then show ?thesis using e Inr True hop False fl by simp
        qed
      qed
    qed
  qed
qed

text \<open>
  Claim C6. When a reference path is given, \<open>data\<close> holds an array (or numpy scalar) under
  some key, and the graph has an edge with the target label whose hop starts at a site
  not symmetrically equivalent to the reference's initial site, the call raises: it never
  returns normally. When every edge has a label and a hop, the exception raised is
  \<open>Warning\<close>.
\<close>

theorem add_data_array_raises:
  assumes "distinct (map fst data)"
    and "k \<in> fst ` set data" and "is_array (map_of data k)"
    and "i < length g" and "hop_label_of (edge_dict (g ! i)) = Inr target_label"
    and "disagrees (Some mp) (dict_update (edge_dict (g ! i)) data)"
  shows "(\<exists>e. snd (add_data_to_similar_edges target_label data (Some mp) g) = Some e) \<and>
         (list_all has_label g \<and> list_all (\<lambda>e. has_hop (dict_update (edge_dict e) data)) g \<longrightarrow>
            snd (add_data_to_similar_edges target_label data (Some mp) g) = Some Warning)"
  by (rule add_data_array_raises_aux[OF assms])

theorem add_data_array_raises_witness:
  "distinct (map fst [(''chg'', NdArray [1, 2])]) \<and>
   ''chg'' \<in> fst ` set [(''chg'', NdArray [1, 2])] \<and>
   is_array (map_of [(''chg'', NdArray [1, 2])] ''chg'') \<and>
   snd (add_data_to_similar_edges (IntLabel 0) [(''chg'', NdArray [1, 2])]
     (Some \<lparr> ref_isite = PeriodicSite ''Li'' (0, 0, 0), are_symmetrically_equivalent = (=) \<rparr>)
     [(0, 1, 0, [(''hop_label'', PInt 0),
                 (''hop'', HopV (MigrationPath (PeriodicSite ''Li'' (0, 0, 0)) (PeriodicSite ''Li'' (1, 0, 0)) 2))]),
      (0, 1, 1, [(''hop_label'', PInt 0),
                 (''hop'', HopV (MigrationPath (PeriodicSite ''Li'' (1, 0, 0)) (PeriodicSite ''Li'' (0, 0, 0)) 2))])])
   = Some Warning"
proof -
  let ?data = "[(''chg'', NdArray [1, 2])] :: pydict"
  let ?mp = "\<lparr> ref_isite = PeriodicSite ''Li'' (0, 0, 0), are_symmetrically_equivalent = (=) \<rparr>"
  let ?e0 = "(0, 1, 0, [(''hop_label'', PInt 0),
                 (''hop'', HopV (MigrationPath (PeriodicSite ''Li'' (0, 0, 0)) (PeriodicSite ''Li'' (1, 0, 0)) 2))]) :: edge"
  let ?e1 = "(0, 1, 1, [(''hop_label'', PInt 0),
                 (''hop'', HopV (MigrationPath (PeriodicSite ''Li'' (1, 0, 0)) (PeriodicSite ''Li'' (0, 0, 0)) 2))]) :: edge"
  have dist: "distinct (map fst ?data)" by simp
  have k: "''chg'' \<in> fst ` set ?data" by simp
  have arr: "is_array (map_of ?data ''chg'')" by (simp add: is_array_def)
  have i: "1 < length [?e0, ?e1]" by simp
  have lab: "hop_label_of (edge_dict ([?e0, ?e1] ! 1)) = Inr (IntLabel 0)"
    by (simp add: hop_label_of_def edge_dict_def)
  have dis: "disagrees (Some ?mp) (dict_update (edge_dict ([?e0, ?e1] ! 1)) ?data)"
    by (simp add: disagrees_def hop_of_def edge_dict_def dict_update_def dict_set_def)
  have wf1: "list_all has_label [?e0, ?e1]"
    by (simp add: has_label_def hop_label_of_def edge_dict_def)
  have wf2: "list_all (\<lambda>e. has_hop (dict_update (edge_dict e) ?data)) [?e0, ?e1]"
    by (simp add: has_hop_def hop_of_def edge_dict_def dict_update_def dict_set_def)
  from add_data_array_raises[OF dist k arr i lab dis] wf1 wf2
  have "snd (add_data_to_similar_edges (IntLabel 0) ?data (Some ?mp) [?e0, ?e1]) = Some Warning"
    by blast
  then show ?thesis using dist k arr by blast
qed

section \<open>Properties of \<open>assign_cost_to_graph\<close>\<close>

lemma hop_label_of_dict_set:
  "k \<noteq> ''hop_label'' \<Longrightarrow> hop_label_of (dict_set d k v) = hop_label_of d"
  by (simp add: hop_label_of_def map_of_dict_set)


lemma with_cost_label [simp]:
  "hop_label_of (edge_dict (with_cost l c e)) = hop_label_of (edge_dict e)"
  by (simp add: with_cost_def edge_dict_def hop_label_of_dict_set)







lemma set_update_subset: "x \<in> set (AList.update k v al) \<Longrightarrow> x = (k, v) \<or> x \<in> set al"
  by (induction al) (auto split: if_splits)

lemma collect_unique_props:
  assumes "collect_unique ps acc = Inr uh" and "distinct (map fst acc)"
  shows "distinct (map fst uh) \<and> (\<forall>p\<in>set ps. has_label (snd p)) \<and>
         (\<forall>la\<in>set uh. la \<in> set acc \<or>
             (\<exists>e. (snd la, e) \<in> set ps \<and> hop_label_of (edge_dict e) = Inr (fst la)))"
  using assms
proof (induction ps arbitrary: acc)
  case Nil
  then show ?case by simp
next
  case (Cons p ps)
  obtain i e where p: "p = (i, e)" by (cases p)
  obtain l where l: "hop_label_of (edge_dict e) = Inr l"
    using Cons.prems(1) p by (cases "hop_label_of (edge_dict e)") auto
  have run: "collect_unique ps (AList.update l i acc) = Inr uh" using Cons.prems(1) p l by simp
  have d: "distinct (map fst (AList.update l i acc))" using Cons.prems(2) by (simp add: distinct_update)
  note ih = Cons.IH[OF run d]
  have "la \<in> set acc \<or> (\<exists>e'. (snd la, e') \<in> set (p # ps) \<and> hop_label_of (edge_dict e') = Inr (fst la))"
    if la: "la \<in> set uh" for la
  proof -
    from ih la consider "la \<in> set (AList.update l i acc)"
      | "\<exists>e'. (snd la, e') \<in> set ps \<and> hop_label_of (edge_dict e') = Inr (fst la)" by blast
    then show ?thesis
    proof cases
      case 1
      then have "la = (l, i) \<or> la \<in> set acc" by (rule set_update_subset)
      then show ?thesis
      proof
        assume "la = (l, i)"
        then have "(snd la, e) \<in> set (p # ps) \<and> hop_label_of (edge_dict e) = Inr (fst la)"
          using p l by simp
        then show ?thesis by blast
      next
        assume "la \<in> set acc"
        then show ?thesis by blast
      qed
    next
      case 2
      then show ?thesis by auto
    qed
  qed
  moreover have "has_label (snd p)" using p l by (simp add: has_label_def)
  ultimately show ?case using ih by auto
qed

lemma decorate_all_length: "decorate_all es = Inr es' \<Longrightarrow> length es' = length es"
  by (induction es arbitrary: es') (auto split: sum.splits)

lemma zip_rev_upt:
  assumes "(a, e) \<in> set (zip (rev [0 ..< length rg]) rg)"
  shows "a < length rg \<and> rev rg ! a = e"
proof -
  let ?n = "length rg"
  from assms obtain j where j: "rev [0 ..< ?n] ! j = a" "rg ! j = e" "j < ?n"
    by (auto simp: in_set_zip)
  have a: "a = ?n - Suc j" using j by (simp add: rev_nth)
  then have "a < ?n" using j(3) by simp
  moreover have "rev rg ! a = rg ! (?n - Suc a)" using \<open>a < ?n\<close> by (simp add: rev_nth)
  moreover have "?n - Suc a = j" using a j(3) by simp
  ultimately show ?thesis using j(2) by simp
qed

lemma populate_consistent:
  assumes "populate_unique_hops_dict g = Inr self"
  shows "consistent self"
proof -
  obtain rg where rg: "decorate_all (rev g) = Inr rg"
    using assms by (auto simp: populate_unique_hops_dict_def split: sum.splits)
  then obtain uh where uh: "collect_unique (zip (rev [0 ..< length g]) rg) [] = Inr uh"
    and self: "self = \<lparr> s_graph = rev rg, unique_hops = uh \<rparr>"
    using assms by (auto simp: populate_unique_hops_dict_def split: sum.splits)
  have len: "length rg = length g" using decorate_all_length[OF rg] by simp
  have props: "distinct (map fst uh)" "\<forall>p\<in>set (zip (rev [0 ..< length rg]) rg). has_label (snd p)"
    "\<forall>la\<in>set uh. \<exists>e. (snd la, e) \<in> set (zip (rev [0 ..< length rg]) rg) \<and> hop_label_of (edge_dict e) = Inr (fst la)"
    using collect_unique_props[OF uh[folded len]] by auto
  have sn: "map snd (zip (rev [0 ..< length rg]) rg) = rg" by (simp add: map_snd_zip)
  have labels: "list_all has_label (rev rg)"
    unfolding list_all_iff
  proof
    fix e assume "e \<in> set (rev rg)"
    then have "e \<in> set (map snd (zip (rev [0 ..< length rg]) rg))" unfolding sn by simp
    then have "e \<in> snd ` set (zip (rev [0 ..< length rg]) rg)" unfolding set_map .
    then obtain p where "p \<in> set (zip (rev [0 ..< length rg]) rg)" "snd p = e" by blast
    then show "has_label e" using props(2) by blast
  qed
  have reps: "list_all (\<lambda>(l, a). a < length (rev rg) \<and> hop_label_of (edge_dict (rev rg ! a)) = Inr l) uh"
    unfolding list_all_iff
  proof
    fix la assume "la \<in> set uh"
    then obtain e where e: "(snd la, e) \<in> set (zip (rev [0 ..< length rg]) rg)"
      "hop_label_of (edge_dict e) = Inr (fst la)" using props(3) by blast
    from zip_rev_upt[OF e(1)] e(2)
    show "case la of (l, a) \<Rightarrow> a < length (rev rg) \<and> hop_label_of (edge_dict (rev rg ! a)) = Inr l"
      by (cases la) auto
  qed
  show ?thesis using self labels props(1) reps by (simp add: consistent_def)
qed



section \<open>Properties of the guards\<close>

text \<open>
  With the radius left out, the stored tube radius decides: the call raises \<open>ValueError\<close>
  exactly when it is not positive (or when the averaging itself raises it).
\<close>

lemma get_avg_chg_at_max_default_radius:
  "(get_avg_chg_at_max average None (Some rr) = Inl ValueError) = (\<not> rr > 0 \<or> average rr = Inl ValueError)"
  by (simp add: get_avg_chg_at_max_def integration_radius_def)

text \<open>
  Claim C4 says that a call fails with \<open>ValueError\<close> exactly when the effective radius is
  not positive, also for a radius given by the caller. The code binds \<open>rr\<close> only when no
  radius is given: with any explicit radius the call raises \<open>UnboundLocalError\<close>, for the
  positive radius 1 as well, and a negative radius does not raise \<open>ValueError\<close>.
\<close>

theorem get_avg_chg_at_max_explicit_radius:
  "get_avg_chg_at_max average (Some r) tube_radius = Inl UnboundLocalError \<and>
   get_avg_chg_at_max average (Some 1) (Some 1) = Inl UnboundLocalError \<and>
   get_avg_chg_at_max average (Some (- 1)) (Some 1) \<noteq> Inl ValueError"
  by (simp add: get_avg_chg_at_max_def integration_radius_def)

text \<open>
  Claim C9 says that a mismatch between the supercell and unit-cell hop counts is logged.
  The code compares \<open>len(self.unique_hops)\<close> with itself: for every object nothing is
  logged. The check never raises.
\<close>

theorem hop_count_diagnostic_silent:
  "hop_count_diagnostic (unique_hops self) name = []"
  by (simp add: hop_count_diagnostic_def)

text \<open>
  Claim C8, as stated: constructing a \<open>FullPathMapper\<close> with \<open>vac_mode=True\<close> always raises
  \<open>NotImplementedError\<close>. The test of \<open>vac_mode\<close> comes after the species lookup, the symmetry
  analysis and \<open>get_only_sites\<close>, and an exception of one of these calls is raised first.
  In the example the structure has no site of the migrating species, for which building
  the structure of the selected sites raises \<open>ValueError\<close>.
\<close>

theorem FullPathMapper_init_vac_mode_counterexample:
  "FullPathMapper_init
     \<lparr> get_el_sp = (\<lambda>s. Inr s), SpacegroupAnalyzer = (\<lambda>st p. Inr st),
       get_symmetrized_structure = (\<lambda>a. Inr a),
       get_only_sites = (\<lambda>st sp. if filter (\<lambda>x. x = sp) st = [] then Inl ValueError
                                   else Inr (filter (\<lambda>x. x = sp) st)) \<rparr>
     (\<lambda>only symm sp cutoff. Inr (length only))
     [''Li'', ''O'', ''Li''] ''Na'' 10 (1 / 10) True
   = Inl ValueError"
  by (simp add: FullPathMapper_init_def)

text \<open>
  Claim C8, amended. Constructing a \<open>FullPathMapper\<close> with \<open>vac_mode=True\<close> fails for every
  structure and every other argument: no object is built. The exception is
  \<open>NotImplementedError\<close> whenever the library calls that precede the test (species lookup,
  symmetry analysis, selection of the sites) return, and the exception of the first of
  these calls that raises otherwise.
\<close>

theorem FullPathMapper_init_vac_mode:
  "(\<exists>e. FullPathMapper_init ext build structure migrating_specie max_path_length symprec True = Inl e) \<and>
   (\<forall>sp a symm only.
      get_el_sp ext migrating_specie = Inr sp \<and>
      SpacegroupAnalyzer ext structure symprec = Inr a \<and>
      get_symmetrized_structure ext a = Inr symm \<and>
      get_only_sites ext structure sp = Inr only \<longrightarrow>
      FullPathMapper_init ext build structure migrating_specie max_path_length symprec True
        = Inl NotImplementedError) \<and>
   (\<forall>e. get_el_sp ext migrating_specie = Inl e \<longrightarrow>
      FullPathMapper_init ext build structure migrating_specie max_path_length symprec True = Inl e) \<and>
   (\<forall>sp e. get_el_sp ext migrating_specie = Inr sp \<and>
      SpacegroupAnalyzer ext structure symprec = Inl e \<longrightarrow>
      FullPathMapper_init ext build structure migrating_specie max_path_length symprec True = Inl e) \<and>
   (\<forall>sp a e. get_el_sp ext migrating_specie = Inr sp \<and>
      SpacegroupAnalyzer ext structure symprec = Inr a \<and>
      get_symmetrized_structure ext a = Inl e \<longrightarrow>
      FullPathMapper_init ext build structure migrating_specie max_path_length symprec True = Inl e) \<and>
   (\<forall>sp a symm e. get_el_sp ext migrating_specie = Inr sp \<and>
      SpacegroupAnalyzer ext structure symprec = Inr a \<and>
      get_symmetrized_structure ext a = Inr symm \<and>
      get_only_sites ext structure sp = Inl e \<longrightarrow>
      FullPathMapper_init ext build structure migrating_specie max_path_length symprec True = Inl e)"
  by (auto simp: FullPathMapper_init_def split: sum.splits)

theorem FullPathMapper_init_vac_mode_witness:
  "FullPathMapper_init
     \<lparr> get_el_sp = (\<lambda>s. Inr s), SpacegroupAnalyzer = (\<lambda>st p. Inr st),
       get_symmetrized_structure = (\<lambda>a. Inr a),
       get_only_sites = (\<lambda>st sp. Inr (filter (\<lambda>x. x = sp) st)) \<rparr>
     (\<lambda>only symm sp cutoff. Inr (length only))
     [''Li'', ''O'', ''Li''] ''Li'' 10 (1 / 10) True
   = Inl NotImplementedError \<and>
   FullPathMapper_init
     \<lparr> get_el_sp = (\<lambda>s. Inr s), SpacegroupAnalyzer = (\<lambda>st p. Inr st),
       get_symmetrized_structure = (\<lambda>a. Inr a),
       get_only_sites = (\<lambda>st sp. Inr (filter (\<lambda>x. x = sp) st)) \<rparr>
     (\<lambda>only symm sp cutoff. Inr (length only))
     [''Li'', ''O'', ''Li''] ''Li'' 10 (1 / 10) False
   = Inr 2"
proof -
  let ?ext = "\<lparr> get_el_sp = (\<lambda>s. Inr s), SpacegroupAnalyzer = (\<lambda>st p. Inr st),
       get_symmetrized_structure = (\<lambda>a. Inr a),
       get_only_sites = (\<lambda>st sp. Inr (filter (\<lambda>x. x = sp) st)) \<rparr>
       :: (string list, string, string list, string list) services"
  let ?build = "(\<lambda>only symm sp cutoff. Inr (length only))
       :: string list \<Rightarrow> string list \<Rightarrow> string \<Rightarrow> real \<Rightarrow> py_error + nat"
  have a: "get_el_sp ?ext ''Li'' = Inr ''Li''" by simp
  have b: "SpacegroupAnalyzer ?ext [''Li'', ''O'', ''Li''] (1 / 10) = Inr [''Li'', ''O'', ''Li'']" by simp
  have c: "get_symmetrized_structure ?ext [''Li'', ''O'', ''Li''] = Inr [''Li'', ''O'', ''Li'']" by simp
  have d: "get_only_sites ?ext [''Li'', ''O'', ''Li''] ''Li'' = Inr [''Li'', ''Li'']" by simp
  have "FullPathMapper_init ?ext ?build [''Li'', ''O'', ''Li''] ''Li'' 10 (1 / 10) True = Inl NotImplementedError"
    using FullPathMapper_init_vac_mode[of ?ext ?build "[''Li'', ''O'', ''Li'']" "''Li''" 10 "1 / 10"] a b c d
    by blast
  moreover have "FullPathMapper_init ?ext ?build [''Li'', ''O'', ''Li''] ''Li'' 10 (1 / 10) False = Inr 2"
    by (simp add: FullPathMapper_init_def)
  ultimately show ?thesis by blast
qed

end
